theory Spec2Isabelle
  imports Main "HOL-Library.Word" "HOL-Library.Multiset"
begin

unbundle bit_operations_syntax

section \<open>Data model (list.h)\<close>

text \<open>
  Pointers are addresses, with \<open>NULL\<close> the address 0. A value handle (\<open>void *val\<close>) is an
  address as well; the default ordering of the ordered insertions compares these addresses.
\<close>

type_synonym ptr = nat

abbreviation NULL :: ptr where "NULL \<equiv> 0"

datatype list_direction_t = LIST_HEAD | LIST_TAIL

text \<open>
  The field \<open>next\<close> of a node is written \<open>nxt\<close> (\<open>next\<close> is a keyword of the proof
  language), and the field \<open>next\<close> of an iterator \<open>it_next\<close>.
\<close>

record list_node =
  prev :: ptr
  nxt :: ptr
  val :: ptr

text \<open>
  The release callback (\<open>void ( *free)(void *val)\<close>) is a function pointer: either the
  allocator's own release function \<open>LIST_FREE\<close> or a callback of the caller. Its calls are
  recorded in the memory state. The match and compare callbacks are functions of two value
  handles that return a C \<open>int\<close>.
\<close>

datatype free_fn = LIST_FREE | Callback nat

record list_t =
  head :: ptr
  tail :: ptr
  len :: "32 word"
  free :: "free_fn option"
  match :: "(ptr \<Rightarrow> ptr \<Rightarrow> int) option"
  compare :: "(ptr \<Rightarrow> ptr \<Rightarrow> int) option"

record list_iterator_t =
  it_next :: ptr
  direction :: list_direction_t

text \<open>
  The memory: the allocated nodes by address, and the log of the calls of release callbacks
  (the callback and the value handle it was given), oldest first.
\<close>

record mem =
  heap :: "ptr \<rightharpoonup> list_node"
  released :: "(free_fn \<times> ptr) list"

text \<open>
  Dereferencing \<open>NULL\<close> or an address that holds no node is a fault. Every read of a field
  through a node pointer is a \<open>load\<close> and every assignment through one a \<open>store\<close>, in the
  order of the C statements. A list is handed to an operation by its handle (\<open>None\<close> for
  \<open>NULL\<close>), and the operation returns what the C function returns together with the list
  and the memory as it leaves them.
\<close>

datatype fault = Null_deref | Invalid_deref | Invalid_free

definition andThen :: "fault + 'a \<Rightarrow> ('a \<Rightarrow> fault + 'b) \<Rightarrow> fault + 'b" where
  "andThen m f = (case m of Inl e \<Rightarrow> Inl e | Inr x \<Rightarrow> f x)"

definition load :: "ptr \<Rightarrow> mem \<Rightarrow> fault + list_node" where
  "load p s =
     (if p = NULL then Inl Null_deref
      else case heap s p of None \<Rightarrow> Inl Invalid_deref | Some n \<Rightarrow> Inr n)"

definition store :: "ptr \<Rightarrow> (list_node \<Rightarrow> list_node) \<Rightarrow> mem \<Rightarrow> fault + mem" where
  "store p f s = andThen (load p s) (\<lambda>n. Inr (s\<lparr>heap := (heap s)(p \<mapsto> f n)\<rparr>))"

text \<open>
  \<open>call_free cb v\<close> is \<open>if (self->free) self->free(v)\<close>. The call is recorded. \<open>LIST_FREE\<close>
  releases the block that the value handle points to: when that is the address of a node,
  the node is not allocated any longer (memory other than the nodes is not part of the
  model). A callback of the caller is taken to leave the nodes alone.
\<close>

definition call_free :: "free_fn option \<Rightarrow> ptr \<Rightarrow> mem \<Rightarrow> mem" where
  "call_free cb v s =
     (case cb of
        None \<Rightarrow> s
      | Some f \<Rightarrow>
          let s = s\<lparr>released := released s @ [(f, v)]\<rparr>
          in (case f of
                LIST_FREE \<Rightarrow> s\<lparr>heap := (heap s)(v := None)\<rparr>
              | Callback k \<Rightarrow> s))"

text \<open>
  \<open>free_node p\<close> is \<open>LIST_FREE(p)\<close> on a node pointer that is not \<open>NULL\<close>: releasing a block
  that is not allocated (a second time, say) is a fault.
\<close>

definition free_node :: "ptr \<Rightarrow> mem \<Rightarrow> fault + mem" where
  "free_node p s =
     (case heap s p of
        None \<Rightarrow> Inl Invalid_free
      | Some n \<Rightarrow> Inr (s\<lparr>heap := (heap s)(p := None)\<rparr>))"

section \<open>Construction\<close>

text \<open>
  \<open>list_node_new\<close>: the argument \<open>m\<close> is what \<open>LIST_MALLOC\<close> returns, \<open>NULL\<close> when it fails.
\<close>

definition list_node_new :: "ptr \<Rightarrow> ptr \<Rightarrow> mem \<Rightarrow> ptr \<times> mem" where
  "list_node_new m v s =
     (if v = NULL then (NULL, s)
      else if m = NULL then (NULL, s)
      else (m, s\<lparr>heap := (heap s)(m \<mapsto> \<lparr>prev = NULL, nxt = NULL, val = v\<rparr>)\<rparr>))"

text \<open>
  \<open>list_new\<close> of list.c; \<open>ok\<close> says whether \<open>LIST_MALLOC\<close> succeeded. A list handle is
  \<open>None\<close> when it is \<open>NULL\<close>.
\<close>

definition list_new :: "bool \<Rightarrow> list_t option" where
  "list_new ok =
     (if \<not> ok then None
      else Some \<lparr>head = NULL, tail = NULL, len = 0, free = None, match = None,
                 compare = None\<rparr>)"

text \<open>\<open>list_new\<close> of list.h (static inline): the release callback is \<open>LIST_FREE\<close>.\<close>

definition list_new_h :: "bool \<Rightarrow> list_t option" where
  "list_new_h ok =
     (if \<not> ok then None
      else Some \<lparr>head = NULL, tail = NULL, len = 0, free = Some LIST_FREE, match = None,
                 compare = None\<rparr>)"

section \<open>Removal and destruction\<close>

definition list_remove ::
  "list_t option \<Rightarrow> ptr \<Rightarrow> mem \<Rightarrow> fault + (int \<times> list_t option \<times> mem)" where
  "list_remove self node s =
     (case self of
        None \<Rightarrow> Inr (- 1, self, s)
      | Some l \<Rightarrow>
          if node = NULL then Inr (- 1, self, s)
          else
            andThen (load node s) (\<lambda>n.
            andThen (if prev n \<noteq> NULL
                     then andThen (store (prev n) (\<lambda>m. m\<lparr>nxt := nxt n\<rparr>) s) (\<lambda>s. Inr (l, s))
                     else Inr (l\<lparr>head := nxt n\<rparr>, s)) (\<lambda>(l, s).
            andThen (load node s) (\<lambda>n.
            andThen (if nxt n \<noteq> NULL
                     then andThen (store (nxt n) (\<lambda>m. m\<lparr>prev := prev n\<rparr>) s) (\<lambda>s. Inr (l, s))
                     else Inr (l\<lparr>tail := prev n\<rparr>, s)) (\<lambda>(l, s).
            andThen (load node s) (\<lambda>n.
            andThen (free_node node (call_free (free l) (val n) s)) (\<lambda>s.
              Inr (0, Some (l\<lparr>len := len l - 1\<rparr>), s))))))))"

function destroy_loop :: "32 word \<Rightarrow> ptr \<Rightarrow> list_t \<Rightarrow> mem \<Rightarrow> fault + mem" where
  "destroy_loop n cur l s =
     (if n \<noteq> 0 then
        (case load cur s of
           Inl e \<Rightarrow> Inl e
         | Inr c \<Rightarrow>
            (case free_node cur (call_free (free l) (val c) s) of
               Inl e \<Rightarrow> Inl e
             | Inr s \<Rightarrow> destroy_loop (n - 1) (nxt c) l s))
      else Inr s)"
  by pat_completeness auto
termination
  by (relation "measure (\<lambda>(n, cur, l, s). unat n)") (auto simp: unat_minus_one unat_gt_0)

definition list_destroy :: "list_t option \<Rightarrow> mem \<Rightarrow> fault + (int \<times> mem)" where
  "list_destroy self s =
     (case self of
        None \<Rightarrow> Inr (- 1, s)
      | Some l \<Rightarrow> andThen (destroy_loop (len l) (head l) l s) (\<lambda>s. Inr (0, s)))"

section \<open>Pushing and popping at the ends\<close>

definition list_rpush ::
  "list_t option \<Rightarrow> ptr \<Rightarrow> mem \<Rightarrow> fault + (ptr \<times> list_t option \<times> mem)" where
  "list_rpush self node s =
     (case self of
        None \<Rightarrow> Inr (NULL, self, s)
      | Some l \<Rightarrow>
          if node = NULL then Inr (NULL, self, s)
          else if len l \<noteq> 0 then
            andThen (store node (\<lambda>m. m\<lparr>prev := tail l\<rparr>) s) (\<lambda>s.
            andThen (store node (\<lambda>m. m\<lparr>nxt := NULL\<rparr>) s) (\<lambda>s.
            andThen (store (tail l) (\<lambda>m. m\<lparr>nxt := node\<rparr>) s) (\<lambda>s.
              Inr (node, Some (l\<lparr>tail := node, len := len l + 1\<rparr>), s))))
          else
            andThen (store node (\<lambda>m. m\<lparr>nxt := NULL\<rparr>) s) (\<lambda>s.
            andThen (store node (\<lambda>m. m\<lparr>prev := NULL\<rparr>) s) (\<lambda>s.
              Inr (node, Some (l\<lparr>head := node, tail := node, len := len l + 1\<rparr>), s))))"

definition list_lpush ::
  "list_t option \<Rightarrow> ptr \<Rightarrow> mem \<Rightarrow> fault + (ptr \<times> list_t option \<times> mem)" where
  "list_lpush self node s =
     (case self of
        None \<Rightarrow> Inr (NULL, self, s)
      | Some l \<Rightarrow>
          if node = NULL then Inr (NULL, self, s)
          else if len l \<noteq> 0 then
            andThen (store node (\<lambda>m. m\<lparr>nxt := head l\<rparr>) s) (\<lambda>s.
            andThen (store node (\<lambda>m. m\<lparr>prev := NULL\<rparr>) s) (\<lambda>s.
            andThen (store (head l) (\<lambda>m. m\<lparr>prev := node\<rparr>) s) (\<lambda>s.
              Inr (node, Some (l\<lparr>head := node, len := len l + 1\<rparr>), s))))
          else
            andThen (store node (\<lambda>m. m\<lparr>nxt := NULL\<rparr>) s) (\<lambda>s.
            andThen (store node (\<lambda>m. m\<lparr>prev := NULL\<rparr>) s) (\<lambda>s.
              Inr (node, Some (l\<lparr>head := node, tail := node, len := len l + 1\<rparr>), s))))"

definition list_rpop ::
  "list_t option \<Rightarrow> mem \<Rightarrow> fault + (ptr \<times> list_t option \<times> mem)" where
  "list_rpop self s =
     (case self of
        None \<Rightarrow> Inr (NULL, self, s)
      | Some l \<Rightarrow>
          if len l = 0 then Inr (NULL, self, s)
          else
            let node = tail l; l = l\<lparr>len := len l - 1\<rparr> in
            andThen (if len l \<noteq> 0
                     then andThen (load node s) (\<lambda>n.
                          andThen (store (prev n) (\<lambda>m. m\<lparr>nxt := NULL\<rparr>) s) (\<lambda>s.
                            Inr (l\<lparr>tail := prev n\<rparr>, s)))
                     else Inr (l\<lparr>head := NULL, tail := NULL\<rparr>, s)) (\<lambda>(l, s).
            andThen (store node (\<lambda>m. m\<lparr>prev := NULL\<rparr>) s) (\<lambda>s.
            andThen (store node (\<lambda>m. m\<lparr>nxt := NULL\<rparr>) s) (\<lambda>s.
              Inr (node, Some l, s)))))"

definition list_lpop ::
  "list_t option \<Rightarrow> mem \<Rightarrow> fault + (ptr \<times> list_t option \<times> mem)" where
  "list_lpop self s =
     (case self of
        None \<Rightarrow> Inr (NULL, self, s)
      | Some l \<Rightarrow>
          if len l = 0 then Inr (NULL, self, s)
          else
            let node = head l; l = l\<lparr>len := len l - 1\<rparr> in
            andThen (if len l \<noteq> 0
                     then andThen (load node s) (\<lambda>n.
                          andThen (store (nxt n) (\<lambda>m. m\<lparr>prev := NULL\<rparr>) s) (\<lambda>s.
                            Inr (l\<lparr>head := nxt n\<rparr>, s)))
                     else Inr (l\<lparr>tail := NULL, head := NULL\<rparr>, s)) (\<lambda>(l, s).
            andThen (store node (\<lambda>m. m\<lparr>prev := NULL\<rparr>) s) (\<lambda>s.
            andThen (store node (\<lambda>m. m\<lparr>nxt := NULL\<rparr>) s) (\<lambda>s.
              Inr (node, Some l, s)))))"

section \<open>Iterator\<close>

text \<open>
  An iterator handle is \<open>None\<close> when it is \<open>NULL\<close>; \<open>ok\<close> says whether \<open>LIST_MALLOC\<close>
  succeeded. Neither \<open>list_iterator_new\<close> nor \<open>list_iterator_next\<close> tests its handle before
  dereferencing it.
\<close>

definition list_iterator_new_from_node ::
  "bool \<Rightarrow> ptr \<Rightarrow> list_direction_t \<Rightarrow> list_iterator_t option" where
  "list_iterator_new_from_node ok node d =
     (if \<not> ok then None else Some \<lparr>it_next = node, direction = d\<rparr>)"

definition list_iterator_new ::
  "bool \<Rightarrow> list_t option \<Rightarrow> list_direction_t \<Rightarrow> fault + list_iterator_t option" where
  "list_iterator_new ok list d =
     (case list of
        None \<Rightarrow> Inl Null_deref
      | Some l \<Rightarrow>
          Inr (list_iterator_new_from_node ok (if d = LIST_HEAD then head l else tail l) d))"

definition list_iterator_next ::
  "list_iterator_t option \<Rightarrow> mem \<Rightarrow> fault + (ptr \<times> list_iterator_t option)" where
  "list_iterator_next self s =
     (case self of
        None \<Rightarrow> Inl Null_deref
      | Some it \<Rightarrow>
          let curr = it_next it in
          if curr \<noteq> NULL then
            andThen (load curr s) (\<lambda>c.
              Inr (curr, Some (it\<lparr>it_next := (if direction it = LIST_HEAD then nxt c
                                                else prev c)\<rparr>)))
          else Inr (curr, self))"

section \<open>Search and indexed access\<close>

text \<open>
  The scans of \<open>list_find\<close>, \<open>list_push_asc\<close> and \<open>list_push_desc\<close> follow the links until
  they meet \<open>NULL\<close>; on a chain with a cycle they do not return, which is the value \<open>None\<close>.
\<close>

partial_function (option) find_loop ::
  "list_t \<Rightarrow> ptr \<Rightarrow> list_iterator_t option \<Rightarrow> mem \<Rightarrow> (fault + ptr) option" where
  "find_loop l v it s =
     (case list_iterator_next it s of
        Inl e \<Rightarrow> Some (Inl e)
      | Inr (node, it') \<Rightarrow>
          if node = NULL then Some (Inr NULL)
          else (case load node s of
                  Inl e \<Rightarrow> Some (Inl e)
                | Inr n \<Rightarrow>
                    if (case match l of
                          Some f \<Rightarrow> f (val n) v \<noteq> 0
                        | None \<Rightarrow> val n = v)
                    then Some (Inr node)
                    else find_loop l v it' s))"

definition list_find ::
  "bool \<Rightarrow> list_t option \<Rightarrow> ptr \<Rightarrow> mem \<Rightarrow> (fault + ptr) option" where
  "list_find ok self v s =
     (case self of
        None \<Rightarrow> Some (Inr NULL)
      | Some l \<Rightarrow>
          (case list_iterator_new ok self LIST_HEAD of
             Inl e \<Rightarrow> Some (Inl e)
           | Inr it \<Rightarrow> find_loop l v it s))"

function at_loop ::
  "32 word \<Rightarrow> ptr \<Rightarrow> list_iterator_t option \<Rightarrow> mem \<Rightarrow> fault + ptr" where
  "at_loop index node it s =
     (if index \<noteq> 0 then
        (case list_iterator_next it s of
           Inl e \<Rightarrow> Inl e
         | Inr (node', it') \<Rightarrow> at_loop (index - 1) node' it' s)
      else Inr node)"
  by pat_completeness auto
termination
  by (relation "measure (\<lambda>(index, node, it, s). unat index)") (auto simp: unat_minus_one unat_gt_0)

text \<open>The index is a C \<open>int\<close>: a 32-bit word read as two's complement.\<close>

definition list_at :: "bool \<Rightarrow> list_t option \<Rightarrow> 32 word \<Rightarrow> mem \<Rightarrow> fault + ptr" where
  "list_at ok self index s =
     (case self of
        None \<Rightarrow> Inr NULL
      | Some l \<Rightarrow>
          let (d, index) = (if sint index < 0 then (LIST_TAIL, NOT index)
                            else (LIST_HEAD, index))
          in if index < len l then
               andThen (list_iterator_new ok self d) (\<lambda>it.
               andThen (list_iterator_next it s) (\<lambda>(node, it).
                 at_loop index node it s))
             else Inr NULL)"

section \<open>Ordered insertion\<close>

partial_function (option) asc_loop ::
  "list_t \<Rightarrow> ptr \<Rightarrow> list_iterator_t option \<Rightarrow> mem \<Rightarrow> (fault + ptr) option" where
  "asc_loop l node_in it s =
     (case list_iterator_next it s of
        Inl e \<Rightarrow> Some (Inl e)
      | Inr (node, it') \<Rightarrow>
          if node = NULL then Some (Inr NULL)
          else (case load node s of
                  Inl e \<Rightarrow> Some (Inl e)
                | Inr n \<Rightarrow>
                   (case load node_in s of
                      Inl e \<Rightarrow> Some (Inl e)
                    | Inr i \<Rightarrow>
                        if (case compare l of
                              Some f \<Rightarrow> f (val n) (val i) \<noteq> 0
                            | None \<Rightarrow> val n > val i)
                        then Some (Inr node)
                        else asc_loop l node_in it' s)))"

partial_function (option) desc_loop ::
  "list_t \<Rightarrow> ptr \<Rightarrow> list_iterator_t option \<Rightarrow> mem \<Rightarrow> (fault + ptr) option" where
  "desc_loop l node_in it s =
     (case list_iterator_next it s of
        Inl e \<Rightarrow> Some (Inl e)
      | Inr (node, it') \<Rightarrow>
          if node = NULL then Some (Inr NULL)
          else (case load node s of
                  Inl e \<Rightarrow> Some (Inl e)
                | Inr n \<Rightarrow>
                   (case load node_in s of
                      Inl e \<Rightarrow> Some (Inl e)
                    | Inr i \<Rightarrow>
                        if (case compare l of
                              Some f \<Rightarrow> \<not> (f (val n) (val i) \<noteq> 0)
                            | None \<Rightarrow> val n < val i)
                        then Some (Inr node)
                        else desc_loop l node_in it' s)))"

text \<open>
  What both ordered insertions do once the scan has stopped at \<open>node\<close> (\<open>NULL\<close> when it
  reached the end of the chain).
\<close>

definition insert_before ::
  "list_t \<Rightarrow> ptr \<Rightarrow> ptr \<Rightarrow> mem \<Rightarrow> fault + (ptr \<times> list_t option \<times> mem)" where
  "insert_before l node node_in s =
     (if node = NULL then list_rpush (Some l) node_in s
      else
        andThen (load node s) (\<lambda>n.
          if prev n = NULL then list_lpush (Some l) node_in s
          else
            andThen (store node_in (\<lambda>m. m\<lparr>nxt := node\<rparr>) s) (\<lambda>s.
            andThen (load node s) (\<lambda>n.
            andThen (store node_in (\<lambda>m. m\<lparr>prev := prev n\<rparr>) s) (\<lambda>s.
            andThen (load node s) (\<lambda>n.
            andThen (store (prev n) (\<lambda>m. m\<lparr>nxt := node_in\<rparr>) s) (\<lambda>s.
            andThen (store node (\<lambda>m. m\<lparr>prev := node_in\<rparr>) s) (\<lambda>s.
              Inr (node_in, Some (l\<lparr>len := len l + 1\<rparr>), s)))))))))"

definition list_push_asc ::
  "bool \<Rightarrow> list_t option \<Rightarrow> ptr \<Rightarrow> mem \<Rightarrow> (fault + (ptr \<times> list_t option \<times> mem)) option"
  where
  "list_push_asc ok self node_in s =
     (case self of
        None \<Rightarrow> Some (Inr (NULL, self, s))
      | Some l \<Rightarrow>
          if node_in = NULL then Some (Inr (NULL, self, s))
          else if len l = 0 then Some (list_rpush self node_in s)
          else (case list_iterator_new ok self LIST_HEAD of
                  Inl e \<Rightarrow> Some (Inl e)
                | Inr it \<Rightarrow>
                   (case asc_loop l node_in it s of
                      None \<Rightarrow> None
                    | Some (Inl e) \<Rightarrow> Some (Inl e)
                    | Some (Inr node) \<Rightarrow> Some (insert_before l node node_in s))))"

definition list_push_desc ::
  "bool \<Rightarrow> list_t option \<Rightarrow> ptr \<Rightarrow> mem \<Rightarrow> (fault + (ptr \<times> list_t option \<times> mem)) option"
  where
  "list_push_desc ok self node_in s =
     (case self of
        None \<Rightarrow> Some (Inr (NULL, self, s))
      | Some l \<Rightarrow>
          if node_in = NULL then Some (Inr (NULL, self, s))
          else if len l = 0 then Some (list_rpush self node_in s)
          else (case list_iterator_new ok self LIST_HEAD of
                  Inl e \<Rightarrow> Some (Inl e)
                | Inr it \<Rightarrow>
                   (case desc_loop l node_in it s of
                      None \<Rightarrow> None
                    | Some (Inl e) \<Rightarrow> Some (Inl e)
                    | Some (Inr node) \<Rightarrow> Some (insert_before l node node_in s))))"


section \<open>Abstraction: the chain as a list of node addresses\<close>

text \<open>The fields of the node at an address, for addresses that are allocated.\<close>

definition nx :: "(ptr \<rightharpoonup> list_node) \<Rightarrow> ptr \<Rightarrow> ptr" where
  "nx h p = nxt (the (h p))"

definition pv :: "(ptr \<rightharpoonup> list_node) \<Rightarrow> ptr \<Rightarrow> ptr" where
  "pv h p = prev (the (h p))"

definition vl :: "(ptr \<rightharpoonup> list_node) \<Rightarrow> ptr \<Rightarrow> ptr" where
  "vl h p = val (the (h p))"

text \<open>
  \<open>path f p xs q\<close>: starting at \<open>p\<close> and following the link \<open>f\<close>, one meets exactly the
  addresses \<open>xs\<close> and arrives at \<open>q\<close>.
\<close>

fun path :: "(ptr \<Rightarrow> ptr) \<Rightarrow> ptr \<Rightarrow> ptr list \<Rightarrow> ptr \<Rightarrow> bool" where
  "path f p [] q = (p = q)"
| "path f p (x # xs) q = (p = x \<and> path f (f x) xs q)"

text \<open>
  \<open>links l s xs\<close>: the nodes \<open>xs\<close> are the chain of the list, from \<open>head\<close> by the next
  links and from \<open>tail\<close> by the prev links, every one of them allocated.
\<close>

definition links :: "list_t \<Rightarrow> mem \<Rightarrow> ptr list \<Rightarrow> bool" where
  "links l s xs \<longleftrightarrow>
     distinct xs \<and> NULL \<notin> set xs \<and> set xs \<subseteq> dom (heap s) \<and>
     path (nx (heap s)) (head l) xs NULL \<and>
     path (pv (heap s)) (tail l) (rev xs) NULL"

text \<open>\<open>len\<close> counts the chain modulo \<open>2 ^ 32\<close>, as an \<open>unsigned int\<close> does.\<close>

definition wf_list :: "list_t \<Rightarrow> mem \<Rightarrow> ptr list \<Rightarrow> bool" where
  "wf_list l s xs \<longleftrightarrow> links l s xs \<and> len l = of_nat (length xs)"

text \<open>A list as \<open>list_new\<close> leaves it, whatever its callbacks.\<close>

definition is_empty :: "list_t \<Rightarrow> bool" where
  "is_empty l \<longleftrightarrow> head l = NULL \<and> tail l = NULL \<and> len l = 0"

definition first_or_null :: "ptr list \<Rightarrow> ptr" where
  "first_or_null xs = (case xs of [] \<Rightarrow> NULL | x # _ \<Rightarrow> x)"


section \<open>Ordered insertion: where the scan stops\<close>

text \<open>
  The test that ends the scan of \<open>list_push_asc\<close> and of \<open>list_push_desc\<close>, on the value \<open>v\<close>
  of the new node and the value \<open>w\<close> of the node the scan looks at; \<open>place stop n xs\<close> is the
  chain \<open>xs\<close> with \<open>n\<close> linked in front of the first node that satisfies the test, or at the
  end when there is none.
\<close>

definition asc_stop :: "list_t \<Rightarrow> ptr \<Rightarrow> ptr \<Rightarrow> bool" where
  "asc_stop l v w = (case compare l of Some f \<Rightarrow> f w v \<noteq> 0 | None \<Rightarrow> w > v)"

definition desc_stop :: "list_t \<Rightarrow> ptr \<Rightarrow> ptr \<Rightarrow> bool" where
  "desc_stop l v w = (case compare l of Some f \<Rightarrow> \<not> (f w v \<noteq> 0) | None \<Rightarrow> w < v)"

definition place :: "(ptr \<Rightarrow> bool) \<Rightarrow> ptr \<Rightarrow> ptr list \<Rightarrow> ptr list" where
  "place stop n xs = takeWhile (\<lambda>y. \<not> stop y) xs @ n # dropWhile (\<lambda>y. \<not> stop y) xs"

text \<open>
  A compare callback as list.h documents it: \<open>if a > b, return 1, else return 0\<close>, here on
  the value handles themselves.
\<close>

definition compare_gt :: "ptr \<Rightarrow> ptr \<Rightarrow> int" where
  "compare_gt a b = (if a > b then 1 else 0)"

text \<open>
  The callback as the specification reads it (\<open>a\<close> is ordered as greater than or equal to
  \<open>b\<close>).
\<close>

definition compare_ge :: "ptr \<Rightarrow> ptr \<Rightarrow> int" where
  "compare_ge a b = (if a \<ge> b then 1 else 0)"

section \<open>Callers: inserting values, popping, sequences of operations\<close>

text \<open>What the allocator guarantees: the blocks it returns are not allocated already.\<close>

definition fresh_blocks :: "ptr list \<Rightarrow> mem \<Rightarrow> bool" where
  "fresh_blocks ms s \<longleftrightarrow>
     distinct (filter (\<lambda>m. m \<noteq> NULL) ms) \<and> (\<forall>m \<in> set ms. m \<noteq> NULL \<longrightarrow> m \<notin> dom (heap s))"

text \<open>
  Inserting values one at a time: each value is wrapped by \<open>list_node_new\<close> (\<open>m\<close> is what
  the allocator returns for it) and the node is handed to the ordered insertion \<open>push\<close>.
\<close>

fun insert_all ::
  "(list_t option \<Rightarrow> ptr \<Rightarrow> mem \<Rightarrow> (fault + (ptr \<times> list_t option \<times> mem)) option) \<Rightarrow>
   (ptr \<times> ptr) list \<Rightarrow> list_t option \<Rightarrow> mem \<Rightarrow> (fault + (list_t option \<times> mem)) option"
  where
  "insert_all push [] l s = Some (Inr (l, s))"
| "insert_all push ((m, v) # rest) l s =
     (case list_node_new m v s of
        (node, s) \<Rightarrow>
          (case push l node s of
             None \<Rightarrow> None
           | Some (Inl e) \<Rightarrow> Some (Inl e)
           | Some (Inr (r, l, s)) \<Rightarrow> insert_all push rest l s))"

text \<open>The values that get a node: the value is not \<open>NULL\<close> and the allocation succeeded.\<close>

definition stored :: "(ptr \<times> ptr) list \<Rightarrow> ptr list" where
  "stored mvs = map snd (filter (\<lambda>(m, v). v \<noteq> NULL \<and> m \<noteq> NULL) mvs)"

text \<open>Pushing values at the tail, each wrapped by \<open>list_node_new\<close>.\<close>

fun rpush_all ::
  "(ptr \<times> ptr) list \<Rightarrow> list_t option \<Rightarrow> mem \<Rightarrow> fault + (list_t option \<times> mem)" where
  "rpush_all [] l s = Inr (l, s)"
| "rpush_all ((m, v) # rest) l s =
     (case list_node_new m v s of
        (node, s) \<Rightarrow>
          (case list_rpush l node s of
             Inl e \<Rightarrow> Inl e
           | Inr (r, l, s) \<Rightarrow> rpush_all rest l s))"

text \<open>Popping \<open>k\<close> times with \<open>pop\<close>; the nodes it returned, first one first.\<close>

fun pop_n ::
  "(list_t option \<Rightarrow> mem \<Rightarrow> fault + (ptr \<times> list_t option \<times> mem)) \<Rightarrow> nat \<Rightarrow>
   list_t option \<Rightarrow> mem \<Rightarrow> fault + (ptr list \<times> list_t option \<times> mem)" where
  "pop_n pop 0 l s = Inr ([], l, s)"
| "pop_n pop (Suc k) l s =
     (case pop l s of
        Inl e \<Rightarrow> Inl e
      | Inr (node, l, s) \<Rightarrow>
          (case pop_n pop k l s of
             Inl e \<Rightarrow> Inl e
           | Inr (ns, l, s) \<Rightarrow> Inr (node # ns, l, s)))"

text \<open>
  Sequences of operations on one list. \<open>Node_new m v\<close> is \<open>list_node_new\<close> on the value \<open>v\<close>,
  \<open>m\<close> being what the allocator returns; the flag of the ordered insertions says whether
  their iterator could be allocated.
\<close>

datatype op =
    Node_new ptr ptr
  | Rpush ptr
  | Lpush ptr
  | Rpop
  | Lpop
  | Remove ptr
  | Push_asc bool ptr
  | Push_desc bool ptr

definition drop_result ::
  "fault + ('r \<times> list_t option \<times> mem) \<Rightarrow> fault + (list_t option \<times> mem)" where
  "drop_result r = andThen r (\<lambda>(x, l, s). Inr (l, s))"

fun step :: "op \<Rightarrow> list_t option \<Rightarrow> mem \<Rightarrow> (fault + (list_t option \<times> mem)) option" where
  "step (Node_new m v) l s = Some (Inr (l, snd (list_node_new m v s)))"
| "step (Rpush n) l s = Some (drop_result (list_rpush l n s))"
| "step (Lpush n) l s = Some (drop_result (list_lpush l n s))"
| "step Rpop l s = Some (drop_result (list_rpop l s))"
| "step Lpop l s = Some (drop_result (list_lpop l s))"
| "step (Remove n) l s = Some (drop_result (list_remove l n s))"
| "step (Push_asc ok n) l s = map_option drop_result (list_push_asc ok l n s)"
| "step (Push_desc ok n) l s = map_option drop_result (list_push_desc ok l n s)"

fun run :: "op list \<Rightarrow> list_t option \<Rightarrow> mem \<Rightarrow> (fault + (list_t option \<times> mem)) option" where
  "run [] l s = Some (Inr (l, s))"
| "run (x # xs) l s =
     (case step x l s of
        None \<Rightarrow> None
      | Some (Inl e) \<Rightarrow> Some (Inl e)
      | Some (Inr (l, s)) \<Rightarrow> run xs l s)"

text \<open>The nodes of the list: those met from \<open>head\<close> in \<open>len\<close> steps along the next links.\<close>

fun walk :: "nat \<Rightarrow> (ptr \<rightharpoonup> list_node) \<Rightarrow> ptr \<Rightarrow> ptr list" where
  "walk 0 h p = []"
| "walk (Suc k) h p =
     (if p = NULL then []
      else case h p of None \<Rightarrow> [] | Some n \<Rightarrow> p # walk k h (nxt n))"

definition nodes_of :: "list_t \<Rightarrow> mem \<Rightarrow> ptr list" where
  "nodes_of l s = walk (unat (len l)) (heap s) (head l)"

text \<open>
  What the caller owes: a node handed to a push is \<open>NULL\<close> or an allocated node that is not
  in the list, and the count has room for it; a node handed to \<open>list_remove\<close> is \<open>NULL\<close> or a
  node of the list, and when the release callback is \<open>LIST_FREE\<close> its value is not the address
  of an allocated node (\<open>LIST_FREE\<close> would free that node); the allocator returns \<open>NULL\<close> or a
  block that is not in use, and it has room for the iterator of an ordered insertion. A
  sequence is valid when every operation that is reached meets this in the state it is run
  in.
\<close>

definition pushable :: "ptr \<Rightarrow> list_t \<Rightarrow> mem \<Rightarrow> bool" where
  "pushable n l s \<longleftrightarrow>
     n = NULL \<or> (n \<in> dom (heap s) \<and> n \<notin> set (nodes_of l s) \<and> len l \<noteq> - 1)"

fun op_ok :: "op \<Rightarrow> list_t \<Rightarrow> mem \<Rightarrow> bool" where
  "op_ok (Node_new m v) l s = (m = NULL \<or> m \<notin> dom (heap s))"
| "op_ok (Rpush n) l s = pushable n l s"
| "op_ok (Lpush n) l s = pushable n l s"
| "op_ok Rpop l s = True"
| "op_ok Lpop l s = True"
| "op_ok (Remove n) l s =
     (n = NULL \<or>
      (n \<in> set (nodes_of l s) \<and>
       (free l = Some LIST_FREE \<longrightarrow> heap s (vl (heap s) n) = None)))"
| "op_ok (Push_asc ok n) l s = (ok \<and> pushable n l s)"
| "op_ok (Push_desc ok n) l s = (ok \<and> pushable n l s)"

fun valid_run :: "op list \<Rightarrow> list_t option \<Rightarrow> mem \<Rightarrow> bool" where
  "valid_run [] l s = True"
| "valid_run (x # xs) l s =
     (case l of
        None \<Rightarrow> False
      | Some l0 \<Rightarrow>
          op_ok x l0 s \<and>
          (case step x l s of
             Some (Inr (l', s')) \<Rightarrow> valid_run xs l' s'
           | _ \<Rightarrow> True))"


section \<open>Example lists and memories\<close>

definition mem0 :: mem where
  "mem0 = \<lparr>heap = Map.empty, released = []\<rparr>"

definition ex_list :: list_t where
  "ex_list =
     \<lparr>head = 1, tail = 2, len = 2, free = Some LIST_FREE, match = None, compare = None\<rparr>"

definition ex_mem :: mem where
  "ex_mem = \<lparr>heap = [1 \<mapsto> \<lparr>prev = NULL, nxt = 2, val = 7\<rparr>,
                       2 \<mapsto> \<lparr>prev = 1, nxt = NULL, val = 9\<rparr>],
             released = []\<rparr>"


definition abc_list :: list_t where
  "abc_list = \<lparr>head = 1, tail = 3, len = 3, free = None, match = None, compare = None\<rparr>"

definition abc_mem :: mem where
  "abc_mem = \<lparr>heap = [1 \<mapsto> \<lparr>prev = NULL, nxt = 2, val = 7\<rparr>,
                        2 \<mapsto> \<lparr>prev = 1, nxt = 3, val = 8\<rparr>,
                        3 \<mapsto> \<lparr>prev = 2, nxt = NULL, val = 9\<rparr>],
              released = []\<rparr>"

definition ex_values :: "(ptr \<times> ptr) list" where
  "ex_values = [(1, 5), (2, 1), (3, 4), (4, 2), (5, 3)]"

definition empty_with_compare :: list_t where
  "empty_with_compare =
     \<lparr>head = NULL, tail = NULL, len = 0, free = None, match = None, compare = Some compare_gt\<rparr>"


section \<open>Basic lemmas\<close>

lemma andThen_simps [simp]:
  "andThen (Inl e) f = Inl e" "andThen (Inr x) f = f x"
  by (simp_all add: andThen_def)

lemma load_dom: "p \<noteq> NULL \<Longrightarrow> p \<in> dom (heap s) \<Longrightarrow> load p s = Inr (the (heap s p))"
  by (auto simp: load_def)

lemma store_dom:
  "p \<noteq> NULL \<Longrightarrow> p \<in> dom (heap s) \<Longrightarrow>
   store p f s = Inr (s\<lparr>heap := (heap s)(p \<mapsto> f (the (heap s p)))\<rparr>)"
  by (simp add: store_def load_dom)

lemma nx_upd [simp]: "nx (h(a \<mapsto> n)) = (nx h)(a := nxt n)"
  by (auto simp: nx_def)

lemma pv_upd [simp]: "pv (h(a \<mapsto> n)) = (pv h)(a := prev n)"
  by (auto simp: pv_def)

lemma vl_upd [simp]: "vl (h(a \<mapsto> n)) = (vl h)(a := val n)"
  by (auto simp: vl_def)

lemma path_append [simp]:
  "path f p (xs @ ys) q \<longleftrightarrow> (\<exists>m. path f p xs m \<and> path f m ys q)"
  by (induction xs arbitrary: p) auto

lemma path_upd [simp]: "u \<notin> set xs \<Longrightarrow> path (f(u := v)) p xs q = path f p xs q"
  by (induction xs arbitrary: p) auto

lemma path_cong_set: "(\<And>x. x \<in> set xs \<Longrightarrow> f x = g x) \<Longrightarrow> path f p xs q = path g p xs q"
  by (induction xs arbitrary: p) auto

lemma path_nx_del [simp]:
  "a \<notin> set xs \<Longrightarrow> path (nx (h(a := None))) p xs q = path (nx h) p xs q"
  by (rule path_cong_set) (auto simp: nx_def)

lemma path_pv_del [simp]:
  "a \<notin> set xs \<Longrightarrow> path (pv (h(a := None))) p xs q = path (pv h) p xs q"
  by (rule path_cong_set) (auto simp: pv_def)

declare at_loop.simps [simp del]

declare destroy_loop.simps [simp del]

lemma of_nat32_eq_0: "n < 2 ^ 32 \<Longrightarrow> ((of_nat n :: 32 word) = 0) = (n = 0)"
proof -
  assume "n < 2 ^ 32"
  then have "unat (of_nat n :: 32 word) = n" by (simp add: unat_of_nat)
  then show ?thesis by auto
qed

lemma len_facts:
  assumes "len l = of_nat (Suc n)" "Suc n < 2 ^ 32"
  shows "len l \<noteq> 0" "len l - 1 = of_nat n" "(len l - 1 = 0) = (n = 0)"
proof -
  show "len l \<noteq> 0" unfolding assms(1) using assms(2) by (subst of_nat32_eq_0) auto
  show eq: "len l - 1 = of_nat n" unfolding assms(1) by simp
  show "(len l - 1 = 0) = (n = 0)" unfolding eq using assms(2) by (subst of_nat32_eq_0) auto
qed

lemma wf_len0: "wf_list l s xs \<Longrightarrow> length xs < 2 ^ 32 \<Longrightarrow> (len l = 0) = (xs = [])"
  by (simp add: wf_list_def of_nat32_eq_0)

lemma unat_len: "wf_list l s xs \<Longrightarrow> length xs < 2 ^ 32 \<Longrightarrow> unat (len l) = length xs"
  by (simp add: wf_list_def unat_of_nat)

lemma wf_list_empty: "is_empty l \<Longrightarrow> wf_list l s []"
  by (simp add: is_empty_def wf_list_def links_def)

lemma wf_list_alloc:
  assumes "wf_list l s xs" "m \<notin> dom (heap s)"
  shows "wf_list l (s\<lparr>heap := (heap s)(m \<mapsto> n)\<rparr>) xs"
proof -
  have "m \<notin> set xs" using assms by (auto simp: wf_list_def links_def)
  then show ?thesis using assms(1) by (auto simp: wf_list_def links_def)
qed

lemma wf_list_dom: "wf_list l s xs \<Longrightarrow> set xs \<subseteq> dom (heap s)"
  by (simp add: wf_list_def links_def)

lemmas eval_defs =
  list_node_new_def list_rpush_def list_lpush_def insert_before_def
  store_def load_def andThen_def list_iterator_new_def list_iterator_new_from_node_def
  list_iterator_next_def

section \<open>Pushing at the ends\<close>

lemma rpush_nonempty:
  assumes "wf_list l s xs" "len l \<noteq> 0" "node \<noteq> NULL" "node \<in> dom (heap s)" "node \<notin> set xs"
  shows "\<exists>l' s'. list_rpush (Some l) node s = Inr (node, Some l', s') \<and> wf_list l' s' (xs @ [node])
      \<and> dom (heap s') = dom (heap s) \<and> vl (heap s') = vl (heap s) \<and> released s' = released s
      \<and> (\<forall>p. p \<notin> set xs \<and> p \<noteq> node \<longrightarrow> heap s' p = heap s p)
      \<and> free l' = free l \<and> match l' = match l \<and> compare l' = compare l"
proof -
  from assms have ne: "xs \<noteq> []" by (auto simp: wf_list_def)
  then obtain ys t where xs: "xs = ys @ [t]" by (cases xs rule: rev_cases) auto
  show ?thesis using assms unfolding xs
    by (auto simp: wf_list_def links_def list_rpush_def store_dom nx_def pv_def vl_def fun_eq_iff)
qed

lemma rpush_len0:
  assumes "len l = 0" "node \<noteq> NULL" "node \<in> dom (heap s)"
  shows "\<exists>l' s'. list_rpush (Some l) node s = Inr (node, Some l', s') \<and> wf_list l' s' [node]
      \<and> dom (heap s') = dom (heap s) \<and> vl (heap s') = vl (heap s) \<and> released s' = released s
      \<and> (\<forall>p. p \<noteq> node \<longrightarrow> heap s' p = heap s p)
      \<and> free l' = free l \<and> match l' = match l \<and> compare l' = compare l"
  using assms
  by (auto simp: wf_list_def links_def list_rpush_def store_dom nx_def pv_def vl_def fun_eq_iff)

lemma lpush_nonempty:
  assumes "wf_list l s xs" "len l \<noteq> 0" "node \<noteq> NULL" "node \<in> dom (heap s)" "node \<notin> set xs"
  shows "\<exists>l' s'. list_lpush (Some l) node s = Inr (node, Some l', s') \<and> wf_list l' s' (node # xs)
      \<and> dom (heap s') = dom (heap s) \<and> vl (heap s') = vl (heap s) \<and> released s' = released s
      \<and> (\<forall>p. p \<notin> set xs \<and> p \<noteq> node \<longrightarrow> heap s' p = heap s p)
      \<and> free l' = free l \<and> match l' = match l \<and> compare l' = compare l"
proof -
  from assms have ne: "xs \<noteq> []" by (auto simp: wf_list_def)
  then obtain ys t where xs: "xs = t # ys" by (cases xs) auto
  show ?thesis using assms unfolding xs
    by (auto simp: wf_list_def links_def list_lpush_def store_dom nx_def pv_def vl_def fun_eq_iff)
qed




section \<open>Popping at the ends\<close>

lemma rpop_aux:
  assumes "links l s (xs @ [t])" "len l \<noteq> 0" "(len l - 1 = 0) = (xs = [])"
  shows "\<exists>l' s'. list_rpop (Some l) s = Inr (t, Some l', s') \<and> links l' s' xs
      \<and> len l' = len l - 1
      \<and> dom (heap s') = dom (heap s) \<and> vl (heap s') = vl (heap s) \<and> released s' = released s
      \<and> heap s' t = Some \<lparr>prev = NULL, nxt = NULL, val = vl (heap s) t\<rparr>
      \<and> (\<forall>p. p \<notin> set xs \<and> p \<noteq> t \<longrightarrow> heap s' p = heap s p)
      \<and> free l' = free l \<and> match l' = match l \<and> compare l' = compare l"
proof (cases xs rule: rev_cases)
  case Nil
  with assms show ?thesis
    by (auto simp: links_def list_rpop_def store_dom load_dom nx_def pv_def vl_def fun_eq_iff Let_def)
next
  case (snoc ys u)
  with assms show ?thesis
    by (auto simp: links_def list_rpop_def store_dom load_dom nx_def pv_def vl_def fun_eq_iff Let_def)
qed

lemma lpop_aux:
  assumes "links l s (t # xs)" "len l \<noteq> 0" "(len l - 1 = 0) = (xs = [])"
  shows "\<exists>l' s'. list_lpop (Some l) s = Inr (t, Some l', s') \<and> links l' s' xs
      \<and> len l' = len l - 1
      \<and> dom (heap s') = dom (heap s) \<and> vl (heap s') = vl (heap s) \<and> released s' = released s
      \<and> heap s' t = Some \<lparr>prev = NULL, nxt = NULL, val = vl (heap s) t\<rparr>
      \<and> (\<forall>p. p \<notin> set xs \<and> p \<noteq> t \<longrightarrow> heap s' p = heap s p)
      \<and> free l' = free l \<and> match l' = match l \<and> compare l' = compare l"
proof (cases xs)
  case Nil
  with assms show ?thesis
    by (auto simp: links_def list_lpop_def store_dom load_dom nx_def pv_def vl_def fun_eq_iff Let_def)
next
  case (Cons u ys)
  with assms show ?thesis
    by (auto simp: links_def list_lpop_def store_dom load_dom nx_def pv_def vl_def fun_eq_iff Let_def)
qed

lemma rpop_ok:
  assumes "wf_list l s xs" "length xs < 2 ^ 32" "xs \<noteq> []"
  shows "\<exists>l' s'. list_rpop (Some l) s = Inr (last xs, Some l', s') \<and> wf_list l' s' (butlast xs)
      \<and> dom (heap s') = dom (heap s) \<and> vl (heap s') = vl (heap s) \<and> released s' = released s
      \<and> heap s' (last xs) = Some \<lparr>prev = NULL, nxt = NULL, val = vl (heap s) (last xs)\<rparr>
      \<and> (\<forall>p. p \<notin> set xs \<longrightarrow> heap s' p = heap s p)
      \<and> free l' = free l \<and> match l' = match l \<and> compare l' = compare l"
proof -
  obtain ys t where xs: "xs = ys @ [t]" using assms(3) by (cases xs rule: rev_cases) auto
  have L: "len l = of_nat (Suc (length ys))" and lk: "links l s (ys @ [t])"
    using assms(1) by (simp_all add: wf_list_def xs)
  have b: "Suc (length ys) < 2 ^ 32" using assms(2) by (simp add: xs)
  note lf = len_facts [OF L b]
  have c: "(len l - 1 = 0) = (ys = [])" using lf(3) by simp
  from rpop_aux [OF lk lf(1) c] lf(2) show ?thesis
    unfolding xs wf_list_def by auto
qed

lemma lpop_ok:
  assumes "wf_list l s xs" "length xs < 2 ^ 32" "xs \<noteq> []"
  shows "\<exists>l' s'. list_lpop (Some l) s = Inr (hd xs, Some l', s') \<and> wf_list l' s' (tl xs)
      \<and> dom (heap s') = dom (heap s) \<and> vl (heap s') = vl (heap s) \<and> released s' = released s
      \<and> heap s' (hd xs) = Some \<lparr>prev = NULL, nxt = NULL, val = vl (heap s) (hd xs)\<rparr>
      \<and> (\<forall>p. p \<notin> set xs \<longrightarrow> heap s' p = heap s p)
      \<and> free l' = free l \<and> match l' = match l \<and> compare l' = compare l"
proof -
  obtain ys t where xs: "xs = t # ys" using assms(3) by (cases xs) auto
  have L: "len l = of_nat (Suc (length ys))" and lk: "links l s (t # ys)"
    using assms(1) by (simp_all add: wf_list_def xs)
  have b: "Suc (length ys) < 2 ^ 32" using assms(2) by (simp add: xs)
  note lf = len_facts [OF L b]
  have c: "(len l - 1 = 0) = (ys = [])" using lf(3) by simp
  from lpop_aux [OF lk lf(1) c] lf(2) show ?thesis
    unfolding xs wf_list_def by auto
qed

lemma pop_empty:
  assumes "len l = 0"
  shows "list_rpop (Some l) s = Inr (NULL, Some l, s)" "list_lpop (Some l) s = Inr (NULL, Some l, s)"
  using assms by (simp_all add: list_rpop_def list_lpop_def)

text \<open>
  Claim C9. Whatever release callback is installed, \<open>list_rpop\<close> and \<open>list_lpop\<close> on a
  well-formed non-empty list return the tail node and the head node, leave the rest of the
  chain as the list, keep every value handle and record no call of a release callback; on an
  empty list they return \<open>NULL\<close> and change nothing.
\<close>

theorem pop_detaches_without_release:
  assumes "wf_list l s xs" "length xs < 2 ^ 32"
  shows "(xs = [] \<longrightarrow> list_rpop (Some l) s = Inr (NULL, Some l, s) \<and>
                        list_lpop (Some l) s = Inr (NULL, Some l, s)) \<and>
         (xs \<noteq> [] \<longrightarrow>
            (\<exists>l' s'. list_rpop (Some l) s = Inr (last xs, Some l', s') \<and>
               wf_list l' s' (butlast xs) \<and> released s' = released s \<and>
               vl (heap s') = vl (heap s) \<and> dom (heap s') = dom (heap s) \<and> free l' = free l) \<and>
            (\<exists>l' s'. list_lpop (Some l) s = Inr (hd xs, Some l', s') \<and>
               wf_list l' s' (tl xs) \<and> released s' = released s \<and>
               vl (heap s') = vl (heap s) \<and> dom (heap s') = dom (heap s) \<and> free l' = free l))"
proof (cases "xs = []")
  case True
  then have "len l = 0" using assms(1) by (simp add: wf_list_def)
  with True show ?thesis by (simp add: pop_empty)
next
  case False
  from rpop_ok [OF assms False] lpop_ok [OF assms False] False show ?thesis by blast
qed

theorem pop_detaches_without_release_witness:
  "wf_list (the (list_new_h True)) mem0 [] \<and> length ([] :: ptr list) < 2 ^ 32 \<and>
   list_rpop (list_new_h True) mem0 = Inr (NULL, list_new_h True, mem0) \<and>
   list_lpop (list_new_h True) mem0 = Inr (NULL, list_new_h True, mem0) \<and>
   wf_list ex_list ex_mem [1, 2] \<and> length [1 :: ptr, 2] < 2 ^ 32 \<and> [1 :: ptr, 2] \<noteq> [] \<and>
   free ex_list = Some LIST_FREE \<and>
   (\<exists>l' s'. list_rpop (Some ex_list) ex_mem = Inr (2, Some l', s') \<and>
       wf_list l' s' [1] \<and> released s' = released ex_mem \<and> vl (heap s') 2 = 9) \<and>
   (\<exists>l' s'. list_lpop (Some ex_list) ex_mem = Inr (1, Some l', s') \<and>
       wf_list l' s' [2] \<and> released s' = released ex_mem \<and> vl (heap s') 1 = 7)"
proof -
  have w0: "wf_list (the (list_new_h True)) mem0 []"
    by (simp add: wf_list_def links_def list_new_h_def)
  have w: "wf_list ex_list ex_mem [1, 2]"
    by (simp add: wf_list_def links_def ex_list_def ex_mem_def nx_def pv_def)
  have v: "vl (heap ex_mem) 2 = 9" "vl (heap ex_mem) 1 = 7"
    by (simp_all add: ex_mem_def vl_def)
  have f: "free ex_list = Some LIST_FREE" by (simp add: ex_list_def)
  have l: "list_new_h True = Some (the (list_new_h True))" by (simp add: list_new_h_def)
  from pop_detaches_without_release [OF w0] l
  have e: "list_rpop (list_new_h True) mem0 = Inr (NULL, list_new_h True, mem0)"
    "list_lpop (list_new_h True) mem0 = Inr (NULL, list_new_h True, mem0)"
    by simp_all
  from pop_detaches_without_release [OF w] v
  have r: "\<exists>l' s'. list_rpop (Some ex_list) ex_mem = Inr (2, Some l', s') \<and>
       wf_list l' s' [1] \<and> released s' = released ex_mem \<and> vl (heap s') 2 = 9"
    and p: "\<exists>l' s'. list_lpop (Some ex_list) ex_mem = Inr (1, Some l', s') \<and>
       wf_list l' s' [2] \<and> released s' = released ex_mem \<and> vl (heap s') 1 = 7"
    by auto
  show ?thesis using w0 w f e r p by simp
qed

text \<open>
  Claim C10. On a well-formed non-empty list, \<open>list_rpop\<close> returns the tail node and
  \<open>list_lpop\<close> the head node, and in the memory they leave the returned node has both its
  \<open>prev\<close> and its \<open>next\<close> link reset to \<open>NULL\<close> (its value handle is kept).
\<close>

theorem pop_returns_detached_node:
  assumes "wf_list l s xs" "length xs < 2 ^ 32" "xs \<noteq> []"
  shows "(\<exists>l' s'. list_rpop (Some l) s = Inr (last xs, Some l', s') \<and>
            heap s' (last xs) = Some \<lparr>prev = NULL, nxt = NULL, val = vl (heap s) (last xs)\<rparr>) \<and>
         (\<exists>l' s'. list_lpop (Some l) s = Inr (hd xs, Some l', s') \<and>
            heap s' (hd xs) = Some \<lparr>prev = NULL, nxt = NULL, val = vl (heap s) (hd xs)\<rparr>)"
  using rpop_ok [OF assms] lpop_ok [OF assms] by blast

theorem pop_returns_detached_node_witness:
  "wf_list ex_list ex_mem [1, 2] \<and> length [1::ptr, 2] < 2 ^ 32 \<and> [1::ptr, 2] \<noteq> [] \<and>
   (\<exists>l' s'. list_rpop (Some ex_list) ex_mem = Inr (2, Some l', s') \<and>
            heap s' 2 = Some \<lparr>prev = NULL, nxt = NULL, val = 9\<rparr>) \<and>
   (\<exists>l' s'. list_lpop (Some ex_list) ex_mem = Inr (1, Some l', s') \<and>
            heap s' 1 = Some \<lparr>prev = NULL, nxt = NULL, val = 7\<rparr>)"
proof -
  have w: "wf_list ex_list ex_mem [1, 2]"
    by (simp add: wf_list_def links_def ex_list_def ex_mem_def nx_def pv_def)
  have v: "vl (heap ex_mem) 2 = 9" "vl (heap ex_mem) 1 = 7"
    by (simp_all add: ex_mem_def vl_def)
  show ?thesis
    using w pop_returns_detached_node [OF w] v by simp
qed

section \<open>Removal\<close>














section \<open>Null handles\<close>

text \<open>
  Claim C6, as stated, fails: \<open>list_iterator_new\<close> on a \<open>NULL\<close> list and
  \<open>list_iterator_next\<close> on a \<open>NULL\<close> iterator dereference the handle.
\<close>

theorem iterator_null_handle_counterexample:
  "list_iterator_new True None LIST_HEAD = Inl Null_deref \<and>
   list_iterator_next None mem0 = Inl Null_deref"
  by (simp add: list_iterator_new_def list_iterator_next_def)

text \<open>
  Claim C6, amended. Every list operation (remove, destroy, rpush, lpush, rpop, lpop, find,
  at, push_asc, push_desc) returns its failure result and changes nothing when the list
  handle is \<open>NULL\<close>, and so do those that take a node when the node handle is \<open>NULL\<close>. The
  iterator functions \<open>list_iterator_new\<close> and \<open>list_iterator_next\<close> do not test their handle:
  a \<open>NULL\<close> handle is dereferenced.
\<close>

theorem null_handles:
  "list_remove None node s = Inr (- 1, None, s) \<and>
   list_remove self NULL s = Inr (- 1, self, s) \<and>
   list_destroy None s = Inr (- 1, s) \<and>
   list_rpush None node s = Inr (NULL, None, s) \<and>
   list_rpush self NULL s = Inr (NULL, self, s) \<and>
   list_lpush None node s = Inr (NULL, None, s) \<and>
   list_lpush self NULL s = Inr (NULL, self, s) \<and>
   list_rpop None s = Inr (NULL, None, s) \<and>
   list_lpop None s = Inr (NULL, None, s) \<and>
   list_find ok None v s = Some (Inr NULL) \<and>
   list_at ok None i s = Inr NULL \<and>
   list_push_asc ok None node s = Some (Inr (NULL, None, s)) \<and>
   list_push_asc ok self NULL s = Some (Inr (NULL, self, s)) \<and>
   list_push_desc ok None node s = Some (Inr (NULL, None, s)) \<and>
   list_push_desc ok self NULL s = Some (Inr (NULL, self, s)) \<and>
   list_iterator_new ok None d = Inl Null_deref \<and>
   list_iterator_next None s = Inl Null_deref"
  by (simp add: list_remove_def list_destroy_def list_rpush_def list_lpush_def list_rpop_def
      list_lpop_def list_find_def list_at_def list_push_asc_def list_push_desc_def
      list_iterator_new_def list_iterator_next_def split: option.splits)

section \<open>Iterator and indexed access\<close>

lemma iterator_next_head:
  "p \<noteq> NULL \<Longrightarrow> p \<in> dom (heap s) \<Longrightarrow>
   list_iterator_next (Some \<lparr>it_next = p, direction = LIST_HEAD\<rparr>) s =
     Inr (p, Some \<lparr>it_next = nx (heap s) p, direction = LIST_HEAD\<rparr>)"
  by (simp add: list_iterator_next_def load_dom nx_def)

lemma iterator_next_tail:
  "p \<noteq> NULL \<Longrightarrow> p \<in> dom (heap s) \<Longrightarrow>
   list_iterator_next (Some \<lparr>it_next = p, direction = LIST_TAIL\<rparr>) s =
     Inr (p, Some \<lparr>it_next = pv (heap s) p, direction = LIST_TAIL\<rparr>)"
  by (simp add: list_iterator_next_def load_dom pv_def)

lemma iterator_next_null:
  "list_iterator_next (Some \<lparr>it_next = NULL, direction = d\<rparr>) s =
     Inr (NULL, Some \<lparr>it_next = NULL, direction = d\<rparr>)"
  by (simp add: list_iterator_next_def)

lemma sint_not32: "sint (NOT i :: 32 word) = - sint i - 1"
proof -
  have "word_of_int (NOT (sint i)) = NOT (word_of_int (sint i) :: 32 word)"
    by (simp only: word_wi_log_defs(1))
  also have "\<dots> = NOT i" by simp
  finally have e: "NOT i = word_of_int (NOT (sint i))" by (rule sym)
  have b: "- (2 ^ 31) \<le> - sint i - 1" "- sint i - 1 < 2 ^ 31"
    using sint_ge [of i] sint_lt [of i] by simp_all
  have "sint (NOT i) = sint (word_of_int (NOT (sint i)) :: 32 word)"
    by (rule arg_cong [OF e])
  also have "\<dots> = signed_take_bit (LENGTH(32) - 1) (NOT (sint i))"
    by (rule sint_sbintrunc')
  also have "NOT (sint i) = - sint i - 1" by (rule not_int_def)
  also have "signed_take_bit (LENGTH(32) - 1) (- sint i - 1) = - sint i - 1"
    using b by (simp add: signed_take_bit_int_eq_self)
  finally show ?thesis .
qed

lemma unat_sint_nonneg: "0 \<le> sint (w :: 32 word) \<Longrightarrow> int (unat w) = sint w"
proof -
  assume a: "0 \<le> sint w"
  have "sint w < 2 ^ 32" using sint_lt [of w] by simp
  then have "take_bit 32 (sint w) = sint w" using a by (simp add: take_bit_int_eq_self)
  then have e: "uint w = sint w" using uint_sint [of w] by simp
  have "int (unat w) = uint w" by (rule uint_nat [symmetric])
  then show ?thesis using e by (rule trans)
qed

lemma at_loop_path:
  assumes "path f p ys NULL" "NULL \<notin> set ys" "set ys \<subseteq> dom (heap s)" "unat idx \<le> length ys"
    "f = (if d = LIST_HEAD then nx (heap s) else pv (heap s))"
  shows "at_loop idx node (Some \<lparr>it_next = p, direction = d\<rparr>) s = Inr ((node # ys) ! unat idx)"
  using assms(1-4)
proof (induction ys arbitrary: idx node p)
  case Nil
  then have "idx = 0" by (simp add: unat_eq_0)
  then show ?case by (subst at_loop.simps) simp
next
  case (Cons y ys)
  show ?case
  proof (cases "idx = 0")
    case True
    then show ?thesis by (subst at_loop.simps) simp
  next
    case False
    have p: "p = y" "y \<noteq> NULL" "y \<in> dom (heap s)" and rest: "path f (f y) ys NULL"
      using Cons.prems by auto
    have u: "unat (idx - 1) = unat idx - 1" "0 < unat idx"
      using False by (simp_all add: unat_minus_one unat_gt_0)
    have nxt: "list_iterator_next (Some \<lparr>it_next = y, direction = d\<rparr>) s =
        Inr (y, Some \<lparr>it_next = f y, direction = d\<rparr>)"
      using p(2,3) assms(5) by (cases d) (simp_all add: iterator_next_head iterator_next_tail)
    have b: "unat (idx - 1) \<le> length ys" using Cons.prems(4) u by simp
    have IH: "at_loop (idx - 1) y (Some \<lparr>it_next = f y, direction = d\<rparr>) s =
        Inr ((y # ys) ! unat (idx - 1))"
      using Cons.IH [OF rest _ _ b] Cons.prems(2,3) by simp
    have "(node # y # ys) ! unat idx = (y # ys) ! unat (idx - 1)"
      using u by (cases "unat idx") simp_all
    then show ?thesis
      by (subst at_loop.simps) (simp add: False p(1) nxt IH)
  qed
qed

lemma list_at_walk:
  assumes "path f (if d = LIST_HEAD then head l else tail l) ys NULL" "NULL \<notin> set ys"
    "set ys \<subseteq> dom (heap s)" "unat idx < length ys"
    "f = (if d = LIST_HEAD then nx (heap s) else pv (heap s))"
  shows "andThen (list_iterator_new True (Some l) d) (\<lambda>it.
           andThen (list_iterator_next it s) (\<lambda>(node, it). at_loop idx node it s)) =
         Inr (ys ! unat idx)"
proof -
  obtain y ys' where ys: "ys = y # ys'" using assms(4) by (cases ys) auto
  have p: "(if d = LIST_HEAD then head l else tail l) = y" "y \<noteq> NULL" "y \<in> dom (heap s)"
    and rest: "path f (f y) ys' NULL" "NULL \<notin> set ys'" "set ys' \<subseteq> dom (heap s)"
    using assms(1-3) by (auto simp: ys)
  have nxt: "list_iterator_next (Some \<lparr>it_next = y, direction = d\<rparr>) s =
        Inr (y, Some \<lparr>it_next = f y, direction = d\<rparr>)"
    using p(2,3) assms(5) by (cases d) (simp_all add: iterator_next_head iterator_next_tail)
  have b: "unat idx \<le> length ys'" using assms(4) by (simp add: ys)
  show ?thesis
    using at_loop_path [OF rest b assms(5), of y] p(1)
    by (simp add: list_iterator_new_def list_iterator_new_from_node_def nxt ys)
qed

lemma list_at_nonneg:
  assumes "wf_list l s xs" "length xs < 2 ^ 32" "0 \<le> sint i"
  shows "list_at True (Some l) i s =
           (if nat (sint i) < length xs then Inr (xs ! nat (sint i)) else Inr NULL)"
proof -
  have u: "unat i = nat (sint i)"
    using arg_cong [OF unat_sint_nonneg [OF assms(3)], of nat] by (simp only: nat_int)
  have lt: "(i < len l) = (nat (sint i) < length xs)"
    by (simp add: word_less_nat_alt unat_len [OF assms(1,2)] u)
  have lk: "path (nx (heap s)) (head l) xs NULL" "NULL \<notin> set xs" "set xs \<subseteq> dom (heap s)"
    using assms(1) by (auto simp: wf_list_def links_def)
  show ?thesis
  proof (cases "nat (sint i) < length xs")
    case True
    then have b: "unat i < length xs" by (simp add: u)
    from list_at_walk [of "nx (heap s)" LIST_HEAD l xs s i] lk b
    have "andThen (list_iterator_new True (Some l) LIST_HEAD) (\<lambda>it.
           andThen (list_iterator_next it s) (\<lambda>(node, it). at_loop i node it s)) =
         Inr (xs ! unat i)" by simp
    then show ?thesis using assms(3) lt True by (simp add: list_at_def u)
  next
    case False
    then show ?thesis using assms(3) lt by (simp add: list_at_def)
  qed
qed

lemma list_at_neg:
  assumes "wf_list l s xs" "length xs < 2 ^ 32" "sint i < 0"
  shows "list_at True (Some l) i s =
           (if nat (- sint i - 1) < length xs then Inr (rev xs ! nat (- sint i - 1)) else Inr NULL)"
proof -
  have nn: "0 \<le> sint (NOT i)" using assms(3) by (simp add: sint_not32)
  have u: "unat (NOT i) = nat (- sint i - 1)"
    using arg_cong [OF unat_sint_nonneg [OF nn], of nat] by (simp only: nat_int sint_not32)
  have lt: "(NOT i < len l) = (nat (- sint i - 1) < length xs)"
    by (simp add: word_less_nat_alt unat_len [OF assms(1,2)] u)
  have lk: "path (pv (heap s)) (tail l) (rev xs) NULL" "NULL \<notin> set (rev xs)"
    "set (rev xs) \<subseteq> dom (heap s)"
    using assms(1) by (auto simp: wf_list_def links_def)
  show ?thesis
  proof (cases "nat (- sint i - 1) < length xs")
    case True
    then have b: "unat (NOT i) < length (rev xs)" by (simp add: u)
    from list_at_walk [of "pv (heap s)" LIST_TAIL l "rev xs" s "NOT i"] lk b
    have "andThen (list_iterator_new True (Some l) LIST_TAIL) (\<lambda>it.
           andThen (list_iterator_next it s) (\<lambda>(node, it). at_loop (NOT i) node it s)) =
         Inr (rev xs ! unat (NOT i))" by simp
    then show ?thesis using assms(3) lt True by (simp add: list_at_def u)
  next
    case False
    then show ?thesis using assms(3) lt by (simp add: list_at_def)
  qed
qed

text \<open>
  Claim C8. On a well-formed list of \<open>N\<close> nodes (the iterator being allocated),
  \<open>list_at\<close> with an index \<open>0 \<le> i < N\<close> returns the node at offset \<open>i\<close> from the head; with
  \<open>-N \<le> i < 0\<close> it returns the node at offset \<open>~i\<close> (that is \<open>-i - 1\<close>) from the tail; with any
  other index it returns \<open>NULL\<close>.
\<close>

theorem list_at_index:
  assumes "wf_list l s xs" "length xs < 2 ^ 32"
  shows "(0 \<le> sint i \<and> sint i < int (length xs) \<longrightarrow>
            list_at True (Some l) i s = Inr (xs ! nat (sint i))) \<and>
         (- int (length xs) \<le> sint i \<and> sint i < 0 \<longrightarrow>
            unat (NOT i) = nat (- sint i - 1) \<and>
            list_at True (Some l) i s = Inr (rev xs ! unat (NOT i))) \<and>
         (sint i < - int (length xs) \<or> int (length xs) \<le> sint i \<longrightarrow>
            list_at True (Some l) i s = Inr NULL)"
proof (cases "0 \<le> sint i")
  case True
  from list_at_nonneg [OF assms True] True show ?thesis by auto
next
  case False
  then have n: "sint i < 0" by simp
  have nn: "0 \<le> sint (NOT i)" using n by (simp add: sint_not32)
  have u: "unat (NOT i) = nat (- sint i - 1)"
    using arg_cong [OF unat_sint_nonneg [OF nn], of nat] by (simp only: nat_int sint_not32)
  from list_at_neg [OF assms n] n u show ?thesis by auto
qed

theorem list_at_index_witness:
  "wf_list abc_list abc_mem [1, 2, 3] \<and> length [1 :: ptr, 2, 3] < 2 ^ 32 \<and>
   list_at True (Some abc_list) 0 abc_mem = Inr 1 \<and>
   list_at True (Some abc_list) 2 abc_mem = Inr 3 \<and>
   list_at True (Some abc_list) (- 1) abc_mem = Inr 3 \<and>
   list_at True (Some abc_list) (- 3) abc_mem = Inr 1 \<and>
   list_at True (Some abc_list) 3 abc_mem = Inr NULL \<and>
   list_at True (Some abc_list) (- 4) abc_mem = Inr NULL"
proof -
  have w: "wf_list abc_list abc_mem [1, 2, 3]"
    by (simp add: wf_list_def links_def abc_list_def abc_mem_def nx_def pv_def)
  have n: "length [1 :: ptr, 2, 3] < 2 ^ 32" by simp
  note t = list_at_index [OF w n]
  have "list_at True (Some abc_list) 0 abc_mem = Inr 1" using t [of 0] by simp
  moreover have "list_at True (Some abc_list) 2 abc_mem = Inr 3" using t [of 2] by simp
  moreover have "list_at True (Some abc_list) (- 1) abc_mem = Inr 3" using t [of "- 1"] by simp
  moreover have "list_at True (Some abc_list) (- 3) abc_mem = Inr 1" using t [of "- 3"] by simp
  moreover have "list_at True (Some abc_list) 3 abc_mem = Inr NULL" using t [of 3] by simp
  moreover have "list_at True (Some abc_list) (- 4) abc_mem = Inr NULL" using t [of "- 4"] by simp
  ultimately show ?thesis using w n by simp
qed

section \<open>Ordered insertion\<close>

lemma insert_middle:
  assumes "wf_list l s (as @ a # b # bs)" "node_in \<noteq> NULL" "node_in \<in> dom (heap s)"
     "node_in \<notin> set (as @ a # b # bs)"
  shows "\<exists>l' s'. insert_before l b node_in s = Inr (node_in, Some l', s') \<and>
      wf_list l' s' (as @ a # node_in # b # bs)
      \<and> dom (heap s') = dom (heap s) \<and> vl (heap s') = vl (heap s) \<and> released s' = released s
      \<and> (\<forall>p. p \<notin> set (as @ a # b # bs) \<and> p \<noteq> node_in \<longrightarrow> heap s' p = heap s p)
      \<and> free l' = free l \<and> match l' = match l \<and> compare l' = compare l"
  using assms
  by (auto simp: wf_list_def links_def insert_before_def store_dom load_dom nx_def pv_def vl_def fun_eq_iff)

lemma asc_loop_path:
  assumes "path (nx (heap s)) p ys NULL" "NULL \<notin> set ys" "set ys \<subseteq> dom (heap s)"
    "node_in \<noteq> NULL" "node_in \<in> dom (heap s)"
  shows "asc_loop l node_in (Some \<lparr>it_next = p, direction = LIST_HEAD\<rparr>) s =
     Some (Inr (first_or_null
        (dropWhile (\<lambda>y. \<not> asc_stop l (vl (heap s) node_in) (vl (heap s) y)) ys)))"
  using assms
proof (induction ys arbitrary: p)
  case Nil
  then show ?case
    by (subst asc_loop.simps) (simp add: iterator_next_null first_or_null_def)
next
  case (Cons y ys)
  then have p: "p = y" "y \<noteq> NULL" "y \<in> dom (heap s)" and
    rest: "path (nx (heap s)) (nx (heap s) y) ys NULL" by auto
  have IH: "asc_loop l node_in (Some \<lparr>it_next = nx (heap s) y, direction = LIST_HEAD\<rparr>) s =
     Some (Inr (first_or_null
        (dropWhile (\<lambda>y. \<not> asc_stop l (vl (heap s) node_in) (vl (heap s) y)) ys)))"
    using Cons.IH [OF rest] Cons.prems by auto
  show ?case
    by (subst asc_loop.simps)
       (simp add: p iterator_next_head load_dom Cons.prems IH first_or_null_def asc_stop_def vl_def)
qed

lemma desc_loop_path:
  assumes "path (nx (heap s)) p ys NULL" "NULL \<notin> set ys" "set ys \<subseteq> dom (heap s)"
    "node_in \<noteq> NULL" "node_in \<in> dom (heap s)"
  shows "desc_loop l node_in (Some \<lparr>it_next = p, direction = LIST_HEAD\<rparr>) s =
     Some (Inr (first_or_null
        (dropWhile (\<lambda>y. \<not> desc_stop l (vl (heap s) node_in) (vl (heap s) y)) ys)))"
  using assms
proof (induction ys arbitrary: p)
  case Nil
  then show ?case
    by (subst desc_loop.simps) (simp add: iterator_next_null first_or_null_def)
next
  case (Cons y ys)
  then have p: "p = y" "y \<noteq> NULL" "y \<in> dom (heap s)" and
    rest: "path (nx (heap s)) (nx (heap s) y) ys NULL" by auto
  have IH: "desc_loop l node_in (Some \<lparr>it_next = nx (heap s) y, direction = LIST_HEAD\<rparr>) s =
     Some (Inr (first_or_null
        (dropWhile (\<lambda>y. \<not> desc_stop l (vl (heap s) node_in) (vl (heap s) y)) ys)))"
    using Cons.IH [OF rest] Cons.prems by auto
  show ?case
    by (subst desc_loop.simps)
       (simp add: p iterator_next_head load_dom Cons.prems IH first_or_null_def desc_stop_def vl_def)
qed

text \<open>Inserting before the first node of \<open>bs\<close>, in a chain \<open>as @ bs\<close> that is not empty.\<close>

lemma insert_before_ok:
  assumes "wf_list l s (as @ bs)" "len l \<noteq> 0" "node_in \<noteq> NULL" "node_in \<in> dom (heap s)"
    "node_in \<notin> set (as @ bs)"
  shows "\<exists>l' s'. insert_before l (first_or_null bs) node_in s = Inr (node_in, Some l', s') \<and>
      wf_list l' s' (as @ node_in # bs)
      \<and> dom (heap s') = dom (heap s) \<and> vl (heap s') = vl (heap s) \<and> released s' = released s
      \<and> (\<forall>p. p \<notin> set (as @ bs) \<and> p \<noteq> node_in \<longrightarrow> heap s' p = heap s p)
      \<and> free l' = free l \<and> match l' = match l \<and> compare l' = compare l"
proof (cases bs)
  case Nil
  then show ?thesis
    using rpush_nonempty [of l s as node_in] assms
    by (simp add: insert_before_def first_or_null_def)
next
  case (Cons b bs')
  note bs = this
  show ?thesis
  proof (cases as rule: rev_cases)
    case Nil
    have b: "b \<noteq> NULL" "b \<in> dom (heap s)" "pv (heap s) b = NULL"
      using assms(1) by (auto simp: wf_list_def links_def bs Nil)
    then show ?thesis
      using lpush_nonempty [of l s bs node_in] assms
      by (simp add: insert_before_def first_or_null_def bs Nil load_dom pv_def)
  next
    case (snoc as' a)
    have b: "b \<noteq> NULL" "b \<in> dom (heap s)" "pv (heap s) b = a" "a \<noteq> NULL"
      using assms(1) by (auto simp: wf_list_def links_def bs snoc)
    show ?thesis
      using insert_middle [of l s as' a b bs' node_in] assms
      by (simp add: first_or_null_def bs snoc)
  qed
qed

lemma push_asc_ok:
  assumes "wf_list l s xs" "node_in \<noteq> NULL" "node_in \<in> dom (heap s)" "node_in \<notin> set xs"
  shows "\<exists>l' s'. list_push_asc True (Some l) node_in s = Some (Inr (node_in, Some l', s')) \<and>
      wf_list l' s'
        (if len l = 0 then [node_in]
         else place (\<lambda>y. asc_stop l (vl (heap s) node_in) (vl (heap s) y)) node_in xs)
      \<and> dom (heap s') = dom (heap s) \<and> vl (heap s') = vl (heap s) \<and> released s' = released s
      \<and> (\<forall>p. p \<notin> set xs \<and> p \<noteq> node_in \<longrightarrow> heap s' p = heap s p)
      \<and> free l' = free l \<and> match l' = match l \<and> compare l' = compare l"
proof (cases "len l = 0")
  case True
  then show ?thesis
    using rpush_len0 [of l node_in s] assms by (simp add: list_push_asc_def) blast
next
  case False
  let ?P = "\<lambda>y. \<not> asc_stop l (vl (heap s) node_in) (vl (heap s) y)"
  have lk: "path (nx (heap s)) (head l) xs NULL" "NULL \<notin> set xs" "set xs \<subseteq> dom (heap s)"
    using assms(1) by (auto simp: wf_list_def links_def)
  have scan: "asc_loop l node_in (Some \<lparr>it_next = head l, direction = LIST_HEAD\<rparr>) s =
      Some (Inr (first_or_null (dropWhile ?P xs)))"
    by (rule asc_loop_path [OF lk assms(2,3)])
  have w: "wf_list l s (takeWhile ?P xs @ dropWhile ?P xs)" using assms(1) by simp
  have n: "node_in \<notin> set (takeWhile ?P xs @ dropWhile ?P xs)" using assms(4) by simp
  from insert_before_ok [OF w False assms(2,3) n] False scan assms(2) show ?thesis
    by (auto simp: list_push_asc_def list_iterator_new_def list_iterator_new_from_node_def place_def)
qed

lemma push_desc_ok:
  assumes "wf_list l s xs" "node_in \<noteq> NULL" "node_in \<in> dom (heap s)" "node_in \<notin> set xs"
  shows "\<exists>l' s'. list_push_desc True (Some l) node_in s = Some (Inr (node_in, Some l', s')) \<and>
      wf_list l' s'
        (if len l = 0 then [node_in]
         else place (\<lambda>y. desc_stop l (vl (heap s) node_in) (vl (heap s) y)) node_in xs)
      \<and> dom (heap s') = dom (heap s) \<and> vl (heap s') = vl (heap s) \<and> released s' = released s
      \<and> (\<forall>p. p \<notin> set xs \<and> p \<noteq> node_in \<longrightarrow> heap s' p = heap s p)
      \<and> free l' = free l \<and> match l' = match l \<and> compare l' = compare l"
proof (cases "len l = 0")
  case True
  then show ?thesis
    using rpush_len0 [of l node_in s] assms by (simp add: list_push_desc_def) blast
next
  case False
  let ?P = "\<lambda>y. \<not> desc_stop l (vl (heap s) node_in) (vl (heap s) y)"
  have lk: "path (nx (heap s)) (head l) xs NULL" "NULL \<notin> set xs" "set xs \<subseteq> dom (heap s)"
    using assms(1) by (auto simp: wf_list_def links_def)
  have scan: "desc_loop l node_in (Some \<lparr>it_next = head l, direction = LIST_HEAD\<rparr>) s =
      Some (Inr (first_or_null (dropWhile ?P xs)))"
    by (rule desc_loop_path [OF lk assms(2,3)])
  have w: "wf_list l s (takeWhile ?P xs @ dropWhile ?P xs)" using assms(1) by simp
  have n: "node_in \<notin> set (takeWhile ?P xs @ dropWhile ?P xs)" using assms(4) by simp
  from insert_before_ok [OF w False assms(2,3) n] False scan assms(2) show ?thesis
    by (auto simp: list_push_desc_def list_iterator_new_def list_iterator_new_from_node_def place_def)
qed

lemma place_sorted_asc:
  "sorted (map f xs) \<Longrightarrow> sorted (map f (place (\<lambda>y. f y > f n) n xs))"
  by (induction xs) (auto simp: place_def dest: set_takeWhileD set_dropWhileD)

lemma place_sorted_desc:
  "sorted (rev (map f xs)) \<Longrightarrow> sorted (rev (map f (place (\<lambda>y. f y < f n) n xs)))"
  by (induction xs) (auto simp: place_def sorted_append dest: set_takeWhileD set_dropWhileD)

lemma mset_place: "mset (place P n xs) = add_mset n (mset xs)"
proof -
  have "mset (takeWhile (\<lambda>y. \<not> P y) xs) + mset (dropWhile (\<lambda>y. \<not> P y) xs)
        = mset (takeWhile (\<lambda>y. \<not> P y) xs @ dropWhile (\<lambda>y. \<not> P y) xs)"
    by (simp only: mset_append)
  then show ?thesis by (simp add: place_def)
qed

lemma length_place: "length (place P n xs) = Suc (length xs)"
proof -
  have "length (takeWhile (\<lambda>y. \<not> P y) xs) + length (dropWhile (\<lambda>y. \<not> P y) xs) = length xs"
    by (metis length_append takeWhile_dropWhile_id)
  then show ?thesis unfolding place_def by simp
qed

lemma insert_all_asc_gen:
  assumes "wf_list l s xs" "compare l = None" "sorted (map (vl (heap s)) xs)"
    "fresh_blocks (map fst mvs) s"
  shows "\<exists>l' s' xs'. insert_all (list_push_asc True) mvs (Some l) s = Some (Inr (Some l', s')) \<and>
     wf_list l' s' xs' \<and> sorted (map (vl (heap s')) xs') \<and>
     (length xs + length mvs < 2 ^ 32 \<longrightarrow>
        mset (map (vl (heap s')) xs') = mset (map (vl (heap s)) xs) + mset (stored mvs))"
  using assms
proof (induction mvs arbitrary: l s xs)
  case Nil
  then show ?case by (auto simp: stored_def)
next
  case (Cons mv mvs)
  obtain m v where mv: "mv = (m, v)" by (cases mv)
  show ?case
  proof (cases "v = NULL \<or> m = NULL")
    case True
    have fr: "fresh_blocks (map fst mvs) s"
      using Cons.prems(4) by (auto simp: fresh_blocks_def mv split: if_splits)
    have st: "stored (mv # mvs) = stored mvs" using True by (auto simp: stored_def mv)
    have step: "insert_all (list_push_asc True) (mv # mvs) (Some l) s =
        insert_all (list_push_asc True) mvs (Some l) s"
      using True by (auto simp: mv list_node_new_def list_push_asc_def)
    from Cons.IH [OF Cons.prems(1-3) fr] show ?thesis
      unfolding step st by fastforce
  next
    case False
    then have nz: "v \<noteq> NULL" "m \<noteq> NULL" by auto
    have mfresh: "m \<notin> dom (heap s)" using Cons.prems(4) nz by (auto simp: fresh_blocks_def mv)
    define s1 where "s1 = s\<lparr>heap := (heap s)(m \<mapsto> \<lparr>prev = NULL, nxt = NULL, val = v\<rparr>)\<rparr>"
    have nn: "list_node_new m v s = (m, s1)" using nz by (simp add: list_node_new_def s1_def)
    have w1: "wf_list l s1 xs" unfolding s1_def by (rule wf_list_alloc [OF Cons.prems(1) mfresh])
    have d: "set xs \<subseteq> dom (heap s)" by (rule wf_list_dom [OF Cons.prems(1)])
    have mx: "m \<notin> set xs" using d mfresh by auto
    have v1: "map (vl (heap s1)) xs = map (vl (heap s)) xs"
      unfolding s1_def using mx by (simp add: map_fun_upd)
    have vm: "vl (heap s1) m = v" by (simp add: s1_def)
    have md: "m \<in> dom (heap s1)" by (simp add: s1_def)
    let ?xs2 = "if len l = 0 then [m]
         else place (\<lambda>y. asc_stop l (vl (heap s1) m) (vl (heap s1) y)) m xs"
    from push_asc_ok [OF w1 nz(2) md mx] obtain l2 s2 where
      p: "list_push_asc True (Some l) m s1 = Some (Inr (m, Some l2, s2))" and
      w2: "wf_list l2 s2 ?xs2" and
      fr2: "dom (heap s2) = dom (heap s1)" "vl (heap s2) = vl (heap s1)" "compare l2 = compare l"
      by auto
    have stop: "(\<lambda>y. asc_stop l (vl (heap s1) m) (vl (heap s1) y)) = (\<lambda>y. vl (heap s1) y > vl (heap s1) m)"
      using Cons.prems(2) by (simp add: asc_stop_def)
    have so1: "sorted (map (vl (heap s1)) xs)" unfolding v1 by (rule Cons.prems(3))
    have so2: "sorted (map (vl (heap s2)) ?xs2)"
      unfolding fr2(2) stop using place_sorted_asc [OF so1, of m] by simp
    have d2: "dom (heap s2) = insert m (dom (heap s))" using fr2(1) by (simp add: s1_def)
    have fr: "fresh_blocks (map fst mvs) s2"
      unfolding fresh_blocks_def d2 using Cons.prems(4) nz
      by (auto simp: fresh_blocks_def mv)
    have step: "insert_all (list_push_asc True) (mv # mvs) (Some l) s =
        insert_all (list_push_asc True) mvs (Some l2) s2"
      by (simp add: mv nn p)
    have c2: "compare l2 = None" using fr2(3) Cons.prems(2) by simp
    from Cons.IH [OF w2 c2 so2 fr] obtain l' s' xs' where
      r: "insert_all (list_push_asc True) mvs (Some l2) s2 = Some (Inr (Some l', s'))"
        "wf_list l' s' xs'" "sorted (map (vl (heap s')) xs')" and
      ms: "length ?xs2 + length mvs < 2 ^ 32 \<longrightarrow>
        mset (map (vl (heap s')) xs') = mset (map (vl (heap s2)) ?xs2) + mset (stored mvs)"
      by blast
    have "mset (map (vl (heap s')) xs') = mset (map (vl (heap s)) xs) + mset (stored (mv # mvs))"
      if b: "length xs + length (mv # mvs) < 2 ^ 32"
    proof -
      have "length xs < 2 ^ 32" using b by simp
      then have e: "(len l = 0) = (xs = [])" by (rule wf_len0 [OF Cons.prems(1)])
      have x2: "?xs2 = place (\<lambda>y. asc_stop l (vl (heap s1) m) (vl (heap s1) y)) m xs"
        using e by (auto simp: place_def)
      have "length ?xs2 + length mvs < 2 ^ 32" unfolding x2 length_place using b by simp
      with ms have "mset (map (vl (heap s')) xs') = mset (map (vl (heap s2)) ?xs2) + mset (stored mvs)"
        by blast
      also have "mset (map (vl (heap s2)) ?xs2) = add_mset v (mset (map (vl (heap s)) xs))"
        using arg_cong [OF v1, of mset] by (subst x2) (simp add: mset_place fr2(2) vm)
      also have "stored (mv # mvs) = v # stored mvs" using nz by (simp add: stored_def mv)
      ultimately show ?thesis by simp
    qed
    with r show ?thesis unfolding step by blast
  qed
qed

lemma insert_all_desc_gen:
  assumes "wf_list l s xs" "compare l = None" "sorted (rev (map (vl (heap s)) xs))"
    "fresh_blocks (map fst mvs) s"
  shows "\<exists>l' s' xs'. insert_all (list_push_desc True) mvs (Some l) s = Some (Inr (Some l', s')) \<and>
     wf_list l' s' xs' \<and> sorted (rev (map (vl (heap s')) xs')) \<and>
     (length xs + length mvs < 2 ^ 32 \<longrightarrow>
        mset (map (vl (heap s')) xs') = mset (map (vl (heap s)) xs) + mset (stored mvs))"
  using assms
proof (induction mvs arbitrary: l s xs)
  case Nil
  then show ?case by (auto simp: stored_def)
next
  case (Cons mv mvs)
  obtain m v where mv: "mv = (m, v)" by (cases mv)
  show ?case
  proof (cases "v = NULL \<or> m = NULL")
    case True
    have fr: "fresh_blocks (map fst mvs) s"
      using Cons.prems(4) by (auto simp: fresh_blocks_def mv split: if_splits)
    have st: "stored (mv # mvs) = stored mvs" using True by (auto simp: stored_def mv)
    have step: "insert_all (list_push_desc True) (mv # mvs) (Some l) s =
        insert_all (list_push_desc True) mvs (Some l) s"
      using True by (auto simp: mv list_node_new_def list_push_desc_def)
    from Cons.IH [OF Cons.prems(1-3) fr] show ?thesis
      unfolding step st by fastforce
  next
    case False
    then have nz: "v \<noteq> NULL" "m \<noteq> NULL" by auto
    have mfresh: "m \<notin> dom (heap s)" using Cons.prems(4) nz by (auto simp: fresh_blocks_def mv)
    define s1 where "s1 = s\<lparr>heap := (heap s)(m \<mapsto> \<lparr>prev = NULL, nxt = NULL, val = v\<rparr>)\<rparr>"
    have nn: "list_node_new m v s = (m, s1)" using nz by (simp add: list_node_new_def s1_def)
    have w1: "wf_list l s1 xs" unfolding s1_def by (rule wf_list_alloc [OF Cons.prems(1) mfresh])
    have d: "set xs \<subseteq> dom (heap s)" by (rule wf_list_dom [OF Cons.prems(1)])
    have mx: "m \<notin> set xs" using d mfresh by auto
    have v1: "map (vl (heap s1)) xs = map (vl (heap s)) xs"
      unfolding s1_def using mx by (simp add: map_fun_upd)
    have vm: "vl (heap s1) m = v" by (simp add: s1_def)
    have md: "m \<in> dom (heap s1)" by (simp add: s1_def)
    let ?xs2 = "if len l = 0 then [m]
         else place (\<lambda>y. desc_stop l (vl (heap s1) m) (vl (heap s1) y)) m xs"
    from push_desc_ok [OF w1 nz(2) md mx] obtain l2 s2 where
      p: "list_push_desc True (Some l) m s1 = Some (Inr (m, Some l2, s2))" and
      w2: "wf_list l2 s2 ?xs2" and
      fr2: "dom (heap s2) = dom (heap s1)" "vl (heap s2) = vl (heap s1)" "compare l2 = compare l"
      by auto
    have stop: "(\<lambda>y. desc_stop l (vl (heap s1) m) (vl (heap s1) y)) = (\<lambda>y. vl (heap s1) y < vl (heap s1) m)"
      using Cons.prems(2) by (simp add: desc_stop_def)
    have so1: "sorted (rev (map (vl (heap s1)) xs))" unfolding v1 by (rule Cons.prems(3))
    have so2: "sorted (rev (map (vl (heap s2)) ?xs2))"
      unfolding fr2(2) stop using place_sorted_desc [OF so1, of m] by simp
    have d2: "dom (heap s2) = insert m (dom (heap s))" using fr2(1) by (simp add: s1_def)
    have fr: "fresh_blocks (map fst mvs) s2"
      unfolding fresh_blocks_def d2 using Cons.prems(4) nz
      by (auto simp: fresh_blocks_def mv)
    have step: "insert_all (list_push_desc True) (mv # mvs) (Some l) s =
        insert_all (list_push_desc True) mvs (Some l2) s2"
      by (simp add: mv nn p)
    have c2: "compare l2 = None" using fr2(3) Cons.prems(2) by simp
    from Cons.IH [OF w2 c2 so2 fr] obtain l' s' xs' where
      r: "insert_all (list_push_desc True) mvs (Some l2) s2 = Some (Inr (Some l', s'))"
        "wf_list l' s' xs'" "sorted (rev (map (vl (heap s')) xs'))" and
      ms: "length ?xs2 + length mvs < 2 ^ 32 \<longrightarrow>
        mset (map (vl (heap s')) xs') = mset (map (vl (heap s2)) ?xs2) + mset (stored mvs)"
      by blast
    have "mset (map (vl (heap s')) xs') = mset (map (vl (heap s)) xs) + mset (stored (mv # mvs))"
      if b: "length xs + length (mv # mvs) < 2 ^ 32"
    proof -
      have "length xs < 2 ^ 32" using b by simp
      then have e: "(len l = 0) = (xs = [])" by (rule wf_len0 [OF Cons.prems(1)])
      have x2: "?xs2 = place (\<lambda>y. desc_stop l (vl (heap s1) m) (vl (heap s1) y)) m xs"
        using e by (auto simp: place_def)
      have "length ?xs2 + length mvs < 2 ^ 32" unfolding x2 length_place using b by simp
      with ms have "mset (map (vl (heap s')) xs') = mset (map (vl (heap s2)) ?xs2) + mset (stored mvs)"
        by blast
      also have "mset (map (vl (heap s2)) ?xs2) = add_mset v (mset (map (vl (heap s)) xs))"
        using arg_cong [OF v1, of mset] by (subst x2) (simp add: mset_place fr2(2) vm)
      also have "stored (mv # mvs) = v # stored mvs" using nz by (simp add: stored_def mv)
      ultimately show ?thesis by simp
    qed
    with r show ?thesis unfolding step by blast
  qed
qed

text \<open>
  Claim C1. Values are inserted one at a time into an empty list with no compare callback,
  each wrapped in a node of its own (the allocator returning blocks that are not in use, or
  \<open>NULL\<close>, and the iterator of each scan being allocated). With \<open>list_push_asc\<close> the
  resulting chain is in ascending order of the value handles, with \<open>list_push_desc\<close> in
  descending order; below \<open>2 ^ 32\<close> insertions the chain holds exactly the values that got
  a node, so it is their sorted list (reversed for the descending insertion).
\<close>

theorem ordered_insertion_sorted:
  assumes "is_empty l0" "compare l0 = None" "fresh_blocks (map fst mvs) s0"
  shows "(\<exists>l s xs. insert_all (list_push_asc True) mvs (Some l0) s0 = Some (Inr (Some l, s)) \<and>
            wf_list l s xs \<and> sorted (map (vl (heap s)) xs) \<and>
            (length mvs < 2 ^ 32 \<longrightarrow> map (vl (heap s)) xs = sort (stored mvs))) \<and>
         (\<exists>l s xs. insert_all (list_push_desc True) mvs (Some l0) s0 = Some (Inr (Some l, s)) \<and>
            wf_list l s xs \<and> sorted (rev (map (vl (heap s)) xs)) \<and>
            (length mvs < 2 ^ 32 \<longrightarrow> map (vl (heap s)) xs = rev (sort (stored mvs))))"
proof
  have w: "wf_list l0 s0 []" by (rule wf_list_empty [OF assms(1)])
  from insert_all_asc_gen [OF w assms(2) _ assms(3)] obtain l s xs where
    r: "insert_all (list_push_asc True) mvs (Some l0) s0 = Some (Inr (Some l, s))"
       "wf_list l s xs" "sorted (map (vl (heap s)) xs)" and
    m: "length mvs < 2 ^ 32 \<longrightarrow> mset (map (vl (heap s)) xs) = mset (stored mvs)"
    by auto
  have "map (vl (heap s)) xs = sort (stored mvs)" if "length mvs < 2 ^ 32"
    using properties_for_sort [of "map (vl (heap s)) xs" "stored mvs"] m r(3) that by simp
  with r show "\<exists>l s xs. insert_all (list_push_asc True) mvs (Some l0) s0 = Some (Inr (Some l, s)) \<and>
            wf_list l s xs \<and> sorted (map (vl (heap s)) xs) \<and>
            (length mvs < 2 ^ 32 \<longrightarrow> map (vl (heap s)) xs = sort (stored mvs))"
    by blast
next
  have w: "wf_list l0 s0 []" by (rule wf_list_empty [OF assms(1)])
  from insert_all_desc_gen [OF w assms(2) _ assms(3)] obtain l s xs where
    r: "insert_all (list_push_desc True) mvs (Some l0) s0 = Some (Inr (Some l, s))"
       "wf_list l s xs" "sorted (rev (map (vl (heap s)) xs))" and
    m: "length mvs < 2 ^ 32 \<longrightarrow> mset (map (vl (heap s)) xs) = mset (stored mvs)"
    by auto
  have "map (vl (heap s)) xs = rev (sort (stored mvs))" if "length mvs < 2 ^ 32"
  proof -
    have "mset (rev (map (vl (heap s)) xs)) = mset (stored mvs)" using m that by simp
    from properties_for_sort [OF this r(3)] show ?thesis by (metis rev_rev_ident)
  qed
  with r show "\<exists>l s xs. insert_all (list_push_desc True) mvs (Some l0) s0 = Some (Inr (Some l, s)) \<and>
            wf_list l s xs \<and> sorted (rev (map (vl (heap s)) xs)) \<and>
            (length mvs < 2 ^ 32 \<longrightarrow> map (vl (heap s)) xs = rev (sort (stored mvs)))"
    by blast
qed

theorem ordered_insertion_sorted_witness:
  "is_empty (the (list_new True)) \<and> compare (the (list_new True)) = None \<and>
   fresh_blocks (map fst ex_values) mem0 \<and> length ex_values < 2 ^ 32 \<and>
   (\<exists>l s xs. insert_all (list_push_asc True) ex_values (list_new True) mem0 =
        Some (Inr (Some l, s)) \<and> wf_list l s xs \<and> map (vl (heap s)) xs = [1, 2, 3, 4, 5]) \<and>
   (\<exists>l s xs. insert_all (list_push_desc True) ex_values (list_new True) mem0 =
        Some (Inr (Some l, s)) \<and> wf_list l s xs \<and> map (vl (heap s)) xs = [5, 4, 3, 2, 1])"
proof -
  have e: "is_empty (the (list_new True))" and c: "compare (the (list_new True)) = None"
    by (simp_all add: list_new_def is_empty_def)
  have f: "fresh_blocks (map fst ex_values) mem0"
    by (simp add: fresh_blocks_def ex_values_def mem0_def)
  have n: "length ex_values < 2 ^ 32" by (simp add: ex_values_def)
  have s: "sort (stored ex_values) = [1, 2, 3, 4, 5]" by (simp add: stored_def ex_values_def)
  have l: "list_new True = Some (the (list_new True))" by (simp add: list_new_def)
  have r: "rev [1, 2, 3, 4, 5 :: ptr] = [5, 4, 3, 2, 1]" by simp
  note t = ordered_insertion_sorted [OF e c f, unfolded s r l [symmetric]]
  from t n obtain l s xs where
    a: "insert_all (list_push_asc True) ex_values (list_new True) mem0 = Some (Inr (Some l, s))"
       "wf_list l s xs" "map (vl (heap s)) xs = [1, 2, 3, 4, 5]"
    by (elim conjE exE) simp
  from t n obtain l' s' xs' where
    d: "insert_all (list_push_desc True) ex_values (list_new True) mem0 = Some (Inr (Some l', s'))"
       "wf_list l' s' xs'" "map (vl (heap s')) xs' = [5, 4, 3, 2, 1]"
    by (elim conjE exE) simp
  show ?thesis
    apply (intro conjI e c f n)
    subgoal using a by (intro exI conjI)
    subgoal using d by (intro exI conjI)
    done
qed

section \<open>Equal values\<close>

text \<open>
  Claim C2. With the compare callback installed, \<open>list_push_desc\<close> is not stable: node 1
  and then node 2, both of value 5, are inserted; the scan of the second insertion stops at
  node 1 already (\<open>!compare(5, 5)\<close> holds), so node 2 is linked before node 1 and the chain is
  \<open>[2, 1]\<close>. The two lemmas after it evaluate the same insertions with \<open>list_push_asc\<close>, and
  with \<open>list_push_desc\<close> under the default ordering: there the chain is \<open>[1, 2]\<close>.
\<close>

theorem push_desc_compare_unstable:
  "\<exists>l s. insert_all (list_push_desc True) [(1, 5), (2, 5)] (Some empty_with_compare) mem0 =
      Some (Inr (Some l, s)) \<and> wf_list l s [2, 1] \<and> map (vl (heap s)) [2, 1] = [5, 5]"
  by (simp add: eval_defs list_push_desc_def desc_loop.simps mem0_def empty_with_compare_def
      compare_gt_def wf_list_def links_def nx_def pv_def vl_def)

lemma push_asc_compare_stable_example:
  "\<exists>l s. insert_all (list_push_asc True) [(1, 5), (2, 5)] (Some empty_with_compare) mem0 =
      Some (Inr (Some l, s)) \<and> wf_list l s [1, 2] \<and> map (vl (heap s)) [1, 2] = [5, 5]"
  by (simp add: eval_defs list_push_asc_def asc_loop.simps mem0_def empty_with_compare_def
      compare_gt_def wf_list_def links_def nx_def pv_def vl_def)

lemma push_desc_default_stable_example:
  "\<exists>l s. insert_all (list_push_desc True) [(1, 5), (2, 5)] (list_new True) mem0 =
      Some (Inr (Some l, s)) \<and> wf_list l s [1, 2] \<and> map (vl (heap s)) [1, 2] = [5, 5]"
  by (simp add: eval_defs list_push_desc_def desc_loop.simps mem0_def list_new_def
      wf_list_def links_def nx_def pv_def vl_def)

text \<open>
  Under the callback \<open>compare_ge\<close> it is \<open>list_push_asc\<close> that puts the second of two equal
  values first.
\<close>

lemma push_asc_compare_ge_unstable_example:
  "\<exists>l s. insert_all (list_push_asc True) [(1, 5), (2, 5)]
       (Some (empty_with_compare\<lparr>compare := Some compare_ge\<rparr>)) mem0 =
      Some (Inr (Some l, s)) \<and> wf_list l s [2, 1] \<and> map (vl (heap s)) [2, 1] = [5, 5]"
  by (simp add: eval_defs list_push_asc_def asc_loop.simps mem0_def empty_with_compare_def
      compare_ge_def wf_list_def links_def nx_def pv_def vl_def)

lemma place_asc_filter:
  "sorted (map f xs) \<Longrightarrow>
   place (\<lambda>y. f n < f y) n xs = filter (\<lambda>y. f y \<le> f n) xs @ n # filter (\<lambda>y. f n < f y) xs"
proof (induction xs)
  case Nil
  then show ?case by (simp add: place_def)
next
  case (Cons x xs)
  show ?case
  proof (cases "f n < f x")
    case True
    then have "\<forall>y \<in> set xs. f n < f y" using Cons.prems by auto
    then have "filter (\<lambda>y. f y \<le> f n) xs = []" "filter (\<lambda>y. f n < f y) xs = xs"
      by (auto simp: filter_empty_conv filter_id_conv)
    then show ?thesis using True by (simp add: place_def)
  next
    case False
    then show ?thesis using Cons by (simp add: place_def)
  qed
qed

lemma place_desc_filter:
  "sorted (rev (map f xs)) \<Longrightarrow>
   place (\<lambda>y. f y < f n) n xs = filter (\<lambda>y. f n \<le> f y) xs @ n # filter (\<lambda>y. f y < f n) xs"
proof (induction xs)
  case Nil
  then show ?case by (simp add: place_def)
next
  case (Cons x xs)
  show ?case
  proof (cases "f x < f n")
    case True
    then have "\<forall>y \<in> set xs. f y < f n" using Cons.prems by (auto simp: sorted_append)
    then have "filter (\<lambda>y. f n \<le> f y) xs = []" "filter (\<lambda>y. f y < f n) xs = xs"
      by (auto simp: filter_empty_conv filter_id_conv)
    then show ?thesis using True by (simp add: place_def)
  next
    case False
    then show ?thesis using Cons by (simp add: place_def sorted_append)
  qed
qed

lemma place_desc_nonstrict_filter:
  "sorted (rev (map f xs)) \<Longrightarrow>
   place (\<lambda>y. f y \<le> f n) n xs = filter (\<lambda>y. f n < f y) xs @ n # filter (\<lambda>y. f y \<le> f n) xs"
proof (induction xs)
  case Nil
  then show ?case by (simp add: place_def)
next
  case (Cons x xs)
  show ?case
  proof (cases "f x \<le> f n")
    case True
    then have "\<forall>y \<in> set xs. f y \<le> f n" using Cons.prems by (auto simp: sorted_append)
    then have "filter (\<lambda>y. f n < f y) xs = []" "filter (\<lambda>y. f y \<le> f n) xs = xs"
      by (auto simp: filter_empty_conv filter_id_conv)
    then show ?thesis using True by (simp add: place_def)
  next
    case False
    then show ?thesis using Cons by (simp add: place_def sorted_append)
  qed
qed

lemma stop_default:
  "compare l = None \<Longrightarrow> asc_stop l v w = (v < w)"
  "compare l = None \<Longrightarrow> desc_stop l v w = (w < v)"
  by (simp_all add: asc_stop_def desc_stop_def)

lemma stop_compare_gt:
  "compare l = Some compare_gt \<Longrightarrow> asc_stop l v w = (v < w)"
  "compare l = Some compare_gt \<Longrightarrow> desc_stop l v w = (w \<le> v)"
  by (auto simp: asc_stop_def desc_stop_def compare_gt_def)

text \<open>
  Where the ordered insertions put a node \<open>n\<close> in a sorted chain that is not empty, under the
  default ordering and under the callback \<open>compare_gt\<close>. \<open>list_push_asc\<close> puts it behind every
  node whose value is not greater, on both paths; \<open>list_push_desc\<close> puts it behind every
  node whose value is not smaller under the default ordering, but in front of the nodes of
  equal value under the callback.
\<close>

lemma push_asc_position:
  assumes "wf_list l s xs" "len l \<noteq> 0" "n \<noteq> NULL" "n \<in> dom (heap s)" "n \<notin> set xs"
    "compare l = None \<or> compare l = Some compare_gt" "sorted (map (vl (heap s)) xs)"
  shows "\<exists>l' s'. list_push_asc True (Some l) n s = Some (Inr (n, Some l', s')) \<and>
     wf_list l' s' (filter (\<lambda>y. vl (heap s) y \<le> vl (heap s) n) xs @ n #
                    filter (\<lambda>y. vl (heap s) n < vl (heap s) y) xs) \<and>
     vl (heap s') = vl (heap s)"
proof -
  have "(\<lambda>y. asc_stop l (vl (heap s) n) (vl (heap s) y)) = (\<lambda>y. vl (heap s) n < vl (heap s) y)"
    using assms(6) stop_default(1) stop_compare_gt(1) by auto
  with push_asc_ok [OF assms(1,3-5)] assms(2) place_asc_filter [OF assms(7), of n]
  show ?thesis by auto
qed

lemma push_desc_position_default:
  assumes "wf_list l s xs" "len l \<noteq> 0" "n \<noteq> NULL" "n \<in> dom (heap s)" "n \<notin> set xs"
    "compare l = None" "sorted (rev (map (vl (heap s)) xs))"
  shows "\<exists>l' s'. list_push_desc True (Some l) n s = Some (Inr (n, Some l', s')) \<and>
     wf_list l' s' (filter (\<lambda>y. vl (heap s) n \<le> vl (heap s) y) xs @ n #
                    filter (\<lambda>y. vl (heap s) y < vl (heap s) n) xs) \<and>
     vl (heap s') = vl (heap s)"
proof -
  have "(\<lambda>y. desc_stop l (vl (heap s) n) (vl (heap s) y)) = (\<lambda>y. vl (heap s) y < vl (heap s) n)"
    using assms(6) stop_default(2) by auto
  with push_desc_ok [OF assms(1,3-5)] assms(2) place_desc_filter [OF assms(7), of n]
  show ?thesis by auto
qed

lemma push_desc_position_compare_gt:
  assumes "wf_list l s xs" "len l \<noteq> 0" "n \<noteq> NULL" "n \<in> dom (heap s)" "n \<notin> set xs"
    "compare l = Some compare_gt" "sorted (rev (map (vl (heap s)) xs))"
  shows "\<exists>l' s'. list_push_desc True (Some l) n s = Some (Inr (n, Some l', s')) \<and>
     wf_list l' s' (filter (\<lambda>y. vl (heap s) n < vl (heap s) y) xs @ n #
                    filter (\<lambda>y. vl (heap s) y \<le> vl (heap s) n) xs) \<and>
     vl (heap s') = vl (heap s)"
proof -
  have "(\<lambda>y. desc_stop l (vl (heap s) n) (vl (heap s) y)) = (\<lambda>y. vl (heap s) y \<le> vl (heap s) n)"
    using assms(6) stop_compare_gt(2) by auto
  with push_desc_ok [OF assms(1,3-5)] assms(2) place_desc_nonstrict_filter [OF assms(7), of n]
  show ?thesis by auto
qed

section \<open>First in first out, last in first out\<close>

lemma rpush_all_ok:
  assumes "wf_list l s xs" "length xs + length mvs < 2 ^ 32"
    "\<forall>(m, v) \<in> set mvs. m \<noteq> NULL \<and> v \<noteq> NULL" "fresh_blocks (map fst mvs) s"
  shows "\<exists>l' s'. rpush_all mvs (Some l) s = Inr (Some l', s') \<and>
     wf_list l' s' (xs @ map fst mvs) \<and> map (vl (heap s')) (map fst mvs) = map snd mvs \<and>
     map (vl (heap s')) xs = map (vl (heap s)) xs \<and> released s' = released s \<and>
     free l' = free l \<and> match l' = match l \<and> compare l' = compare l"
  using assms
proof (induction mvs arbitrary: l s xs)
  case Nil
  then show ?case by simp
next
  case (Cons mv mvs)
  obtain m v where mv: "mv = (m, v)" by (cases mv)
  have nz: "v \<noteq> NULL" "m \<noteq> NULL" using Cons.prems(3) by (auto simp: mv)
  have mfresh: "m \<notin> dom (heap s)" using Cons.prems(4) nz by (auto simp: fresh_blocks_def mv)
  define s1 where "s1 = s\<lparr>heap := (heap s)(m \<mapsto> \<lparr>prev = NULL, nxt = NULL, val = v\<rparr>)\<rparr>"
  have nn: "list_node_new m v s = (m, s1)" using nz by (simp add: list_node_new_def s1_def)
  have w1: "wf_list l s1 xs" unfolding s1_def by (rule wf_list_alloc [OF Cons.prems(1) mfresh])
  have d: "set xs \<subseteq> dom (heap s)" by (rule wf_list_dom [OF Cons.prems(1)])
  have mx: "m \<notin> set xs" using d mfresh by auto
  have v1: "map (vl (heap s1)) xs = map (vl (heap s)) xs"
    unfolding s1_def using mx by (simp add: map_fun_upd)
  have vm: "vl (heap s1) m = v" by (simp add: s1_def)
  have md: "m \<in> dom (heap s1)" by (simp add: s1_def)
  have r1: "released s1 = released s" by (simp add: s1_def)
  have lx: "length xs < 2 ^ 32" using Cons.prems(2) by simp
  have "\<exists>l2 s2. list_rpush (Some l) m s1 = Inr (m, Some l2, s2) \<and> wf_list l2 s2 (xs @ [m]) \<and>
      dom (heap s2) = dom (heap s1) \<and> vl (heap s2) = vl (heap s1) \<and> released s2 = released s1 \<and>
      free l2 = free l \<and> match l2 = match l \<and> compare l2 = compare l"
  proof (cases "len l = 0")
    case True
    then have "xs = []" using wf_len0 [OF Cons.prems(1) lx] by simp
    with rpush_len0 [OF True nz(2) md] show ?thesis by auto
  next
    case False
    from rpush_nonempty [OF w1 False nz(2) md mx] show ?thesis by blast
  qed
  then obtain l2 s2 where
    p: "list_rpush (Some l) m s1 = Inr (m, Some l2, s2)" and
    w2: "wf_list l2 s2 (xs @ [m])" and
    fr2: "dom (heap s2) = dom (heap s1)" "vl (heap s2) = vl (heap s1)" "released s2 = released s1"
      "free l2 = free l" "match l2 = match l" "compare l2 = compare l"
    by blast
  have d2: "dom (heap s2) = insert m (dom (heap s))" using fr2(1) by (simp add: s1_def)
  have fr: "fresh_blocks (map fst mvs) s2"
    unfolding fresh_blocks_def d2 using Cons.prems(3,4) nz
    by (auto simp: fresh_blocks_def mv)
  have b2: "length (xs @ [m]) + length mvs < 2 ^ 32" using Cons.prems(2) by simp
  have a2: "\<forall>(m, v) \<in> set mvs. m \<noteq> NULL \<and> v \<noteq> NULL" using Cons.prems(3) by simp
  have step: "rpush_all (mv # mvs) (Some l) s = rpush_all mvs (Some l2) s2"
    by (simp add: mv nn p)
  from Cons.IH [OF w2 b2 a2 fr] obtain l' s' where
    r: "rpush_all mvs (Some l2) s2 = Inr (Some l', s')"
      "wf_list l' s' ((xs @ [m]) @ map fst mvs)"
      "map (vl (heap s')) (map fst mvs) = map snd mvs"
      "map (vl (heap s')) (xs @ [m]) = map (vl (heap s2)) (xs @ [m])"
      "released s' = released s2"
      "free l' = free l2" "match l' = match l2" "compare l' = compare l2"
    by blast
  from r(4) have k: "map (vl (heap s')) xs = map (vl (heap s)) xs" "vl (heap s') m = v"
    by (simp_all add: fr2(2) v1 vm)
  show ?case unfolding step using r(1,2,3,5-8) k fr2 r1 by (simp add: mv)
qed

lemma lpop_n_ok:
  assumes "wf_list l s xs" "length xs < 2 ^ 32" "k \<le> length xs"
  shows "\<exists>l' s'. pop_n list_lpop k (Some l) s = Inr (take k xs, Some l', s') \<and>
     wf_list l' s' (drop k xs) \<and> vl (heap s') = vl (heap s) \<and> released s' = released s"
  using assms
proof (induction k arbitrary: l s xs)
  case 0
  then show ?case by simp
next
  case (Suc k)
  then obtain y ys where xs: "xs = y # ys" by (cases xs) auto
  have ne: "xs \<noteq> []" by (simp add: xs)
  from lpop_ok [OF Suc.prems(1,2) ne] obtain l1 s1 where
    p: "list_lpop (Some l) s = Inr (y, Some l1, s1)" and w1: "wf_list l1 s1 ys" and
    f1: "vl (heap s1) = vl (heap s)" "released s1 = released s"
    by (auto simp: xs)
  have b: "length ys < 2 ^ 32" "k \<le> length ys" using Suc.prems(2,3) by (simp_all add: xs)
  from Suc.IH [OF w1 b] obtain l' s' where
    "pop_n list_lpop k (Some l1) s1 = Inr (take k ys, Some l', s')" "wf_list l' s' (drop k ys)"
    "vl (heap s') = vl (heap s1)" "released s' = released s1"
    by blast
  then show ?case using p f1 by (simp add: xs)
qed

lemma rpop_n_ok:
  assumes "wf_list l s xs" "length xs < 2 ^ 32" "k \<le> length xs"
  shows "\<exists>l' s'. pop_n list_rpop k (Some l) s = Inr (take k (rev xs), Some l', s') \<and>
     wf_list l' s' (take (length xs - k) xs) \<and> vl (heap s') = vl (heap s) \<and>
     released s' = released s"
  using assms
proof (induction k arbitrary: l s xs)
  case 0
  then show ?case by simp
next
  case (Suc k)
  then obtain ys y where xs: "xs = ys @ [y]" by (cases xs rule: rev_cases) auto
  have ne: "xs \<noteq> []" by (simp add: xs)
  from rpop_ok [OF Suc.prems(1,2) ne] obtain l1 s1 where
    p: "list_rpop (Some l) s = Inr (y, Some l1, s1)" and w1: "wf_list l1 s1 ys" and
    f1: "vl (heap s1) = vl (heap s)" "released s1 = released s"
    by (auto simp: xs)
  have b: "length ys < 2 ^ 32" "k \<le> length ys" using Suc.prems(2,3) by (simp_all add: xs)
  from Suc.IH [OF w1 b] obtain l' s' where
    "pop_n list_rpop k (Some l1) s1 = Inr (take k (rev ys), Some l', s')"
    "wf_list l' s' (take (length ys - k) ys)"
    "vl (heap s') = vl (heap s1)" "released s' = released s1"
    by blast
  then show ?case using p f1 by (simp add: xs)
qed

text \<open>
  Claim C4. Three values \<open>a\<close>, \<open>b\<close>, \<open>c\<close> (none of them \<open>NULL\<close>), each wrapped in a node
  of its own (\<open>ma\<close>, \<open>mb\<close>, \<open>mc\<close>: distinct blocks from the allocator), are pushed in that
  order with \<open>list_rpush\<close> into an empty list. Three calls of \<open>list_lpop\<close> then return the
  nodes of \<open>a\<close>, \<open>b\<close>, \<open>c\<close> in that order, and three calls of \<open>list_rpop\<close> instead return the
  nodes of \<open>c\<close>, \<open>b\<close>, \<open>a\<close>.
\<close>

theorem push_pop_fifo_lifo:
  assumes "is_empty l0" "a \<noteq> NULL" "b \<noteq> NULL" "c \<noteq> NULL"
    "ma \<noteq> NULL" "mb \<noteq> NULL" "mc \<noteq> NULL" "distinct [ma, mb, mc]"
    "{ma, mb, mc} \<inter> dom (heap s0) = {}"
  shows "\<exists>l s. rpush_all [(ma, a), (mb, b), (mc, c)] (Some l0) s0 = Inr (Some l, s) \<and>
     (\<exists>l' s'. pop_n list_lpop 3 (Some l) s = Inr ([ma, mb, mc], Some l', s') \<and>
        map (vl (heap s')) [ma, mb, mc] = [a, b, c] \<and> is_empty l') \<and>
     (\<exists>l' s'. pop_n list_rpop 3 (Some l) s = Inr ([mc, mb, ma], Some l', s') \<and>
        map (vl (heap s')) [mc, mb, ma] = [c, b, a] \<and> is_empty l')"
proof -
  let ?mvs = "[(ma, a), (mb, b), (mc, c)]"
  have w: "wf_list l0 s0 []" by (rule wf_list_empty [OF assms(1)])
  have f: "fresh_blocks (map fst ?mvs) s0" using assms(5-9) by (auto simp: fresh_blocks_def)
  have nz: "\<forall>(m, v) \<in> set ?mvs. m \<noteq> NULL \<and> v \<noteq> NULL" using assms(2-7) by simp
  have b: "length ([] :: ptr list) + length ?mvs < 2 ^ 32" by simp
  from rpush_all_ok [OF w b nz f] obtain l s where
    r: "rpush_all ?mvs (Some l0) s0 = Inr (Some l, s)" and wl: "wf_list l s [ma, mb, mc]" and
    v: "map (vl (heap s)) [ma, mb, mc] = [a, b, c]"
    by auto
  have n: "length [ma, mb, mc] < 2 ^ 32" "3 \<le> length [ma, mb, mc]" by simp_all
  from lpop_n_ok [OF wl n] obtain l1 s1 where
    p1: "pop_n list_lpop 3 (Some l) s = Inr ([ma, mb, mc], Some l1, s1)" and
    w1: "wf_list l1 s1 []" and v1: "vl (heap s1) = vl (heap s)"
    by auto
  from rpop_n_ok [OF wl n] obtain l2 s2 where
    p2: "pop_n list_rpop 3 (Some l) s = Inr ([mc, mb, ma], Some l2, s2)" and
    w2: "wf_list l2 s2 []" and v2: "vl (heap s2) = vl (heap s)"
    by auto
  have e: "is_empty l1" "is_empty l2"
    using w1 w2 by (simp_all add: wf_list_def links_def is_empty_def)
  show ?thesis using r p1 p2 v v1 v2 e by simp
qed

theorem push_pop_fifo_lifo_witness:
  "is_empty (the (list_new True)) \<and> (7 :: ptr) \<noteq> NULL \<and> (8 :: ptr) \<noteq> NULL \<and> (9 :: ptr) \<noteq> NULL \<and>
   (1 :: ptr) \<noteq> NULL \<and> (2 :: ptr) \<noteq> NULL \<and> (3 :: ptr) \<noteq> NULL \<and> distinct [1 :: ptr, 2, 3] \<and>
   {1, 2, 3} \<inter> dom (heap mem0) = {} \<and>
   (\<exists>l s. rpush_all [(1, 7), (2, 8), (3, 9)] (list_new True) mem0 = Inr (Some l, s) \<and>
     (\<exists>l' s'. pop_n list_lpop 3 (Some l) s = Inr ([1, 2, 3], Some l', s') \<and>
        map (vl (heap s')) [1, 2, 3] = [7, 8, 9] \<and> is_empty l') \<and>
     (\<exists>l' s'. pop_n list_rpop 3 (Some l) s = Inr ([3, 2, 1], Some l', s') \<and>
        map (vl (heap s')) [3, 2, 1] = [9, 8, 7] \<and> is_empty l'))"
proof -
  have e: "is_empty (the (list_new True))" by (simp add: list_new_def is_empty_def)
  have d: "{1, 2, 3} \<inter> dom (heap mem0) = {}" by (simp add: mem0_def)
  have l: "list_new True = Some (the (list_new True))" by (simp add: list_new_def)
  note t = push_pop_fifo_lifo [OF e, of 7 8 9 1 2 3 mem0, unfolded l [symmetric]]
  have "\<exists>l s. rpush_all [(1, 7), (2, 8), (3, 9)] (list_new True) mem0 = Inr (Some l, s) \<and>
     (\<exists>l' s'. pop_n list_lpop 3 (Some l) s = Inr ([1, 2, 3], Some l', s') \<and>
        map (vl (heap s')) [1, 2, 3] = [7, 8, 9] \<and> is_empty l') \<and>
     (\<exists>l' s'. pop_n list_rpop 3 (Some l) s = Inr ([3, 2, 1], Some l', s') \<and>
        map (vl (heap s')) [3, 2, 1] = [9, 8, 7] \<and> is_empty l')"
    by (rule t) (simp_all add: mem0_def)
  then show ?thesis using e d by simp
qed

section \<open>Structural invariants\<close>











text \<open>
  The count is an \<open>unsigned int\<close>: the push that makes the chain \<open>2 ^ 32\<close> nodes long
  leaves \<open>len = 0\<close> on a list that is not empty.
\<close>

lemma rpush_count_wraps:
  assumes "wf_list l s xs" "length xs = 2 ^ 32 - 1" "n \<noteq> NULL" "n \<in> dom (heap s)" "n \<notin> set xs"
  shows "\<exists>l' s'. list_rpush (Some l) n s = Inr (n, Some l', s') \<and> wf_list l' s' (xs @ [n]) \<and>
           len l' = 0 \<and> head l' \<noteq> NULL"
proof -
  have L: "len l = - 1" using assms(1,2) by (simp add: wf_list_def)
  then have nz: "len l \<noteq> 0" by simp
  from rpush_nonempty [OF assms(1) nz assms(3-5)] obtain l' s' where
    r: "list_rpush (Some l) n s = Inr (n, Some l', s')" and w: "wf_list l' s' (xs @ [n])"
    by blast
  have "len l' = of_nat (Suc (length xs))" using w by (simp add: wf_list_def)
  then have z: "len l' = 0" by (simp add: assms(2))
  have h: "head l' \<noteq> NULL" using w by (cases xs) (auto simp: wf_list_def links_def)
  from r w z h show ?thesis by blast
qed



lemma walk_numeral:
  "walk (numeral k) h p =
     (if p = NULL then []
      else case h p of None \<Rightarrow> [] | Some n \<Rightarrow> p # walk (pred_numeral k) h (nxt n))"
  "walk 1 h p = (if p = NULL then [] else case h p of None \<Rightarrow> [] | Some n \<Rightarrow> [p])"
  by (simp_all add: numeral_eq_Suc split: option.splits)



section \<open>The release callback\<close>
















text \<open>
  Why the value of a removed node must not be the address of a node under \<open>LIST_FREE\<close>: here
  node 2 holds the address of node 1 as its value, and removing node 2 frees node 1, which
  is still the head and the tail of the list. The sequence is not a valid one.
\<close>

lemma release_frees_value_node_example:
  "\<not> valid_run [Node_new 1 7, Node_new 2 1, Rpush 1, Rpush 2, Remove 2] (list_new_h True) mem0 \<and>
   run [Node_new 1 7, Node_new 2 1, Rpush 1, Rpush 2, Remove 2] (list_new_h True) mem0 =
     Some (Inr (Some \<lparr>head = 1, tail = 1, len = 1, free = Some LIST_FREE, match = None,
                      compare = None\<rparr>,
                \<lparr>heap = Map.empty, released = [(LIST_FREE, 1)]\<rparr>))"
  by (simp add: eval_defs list_new_h_def mem0_def list_remove_def call_free_def free_node_def
      drop_result_def pushable_def nodes_of_def walk_numeral vl_def)




end
